theory Spec2Isabelle
  imports Main "HOL-Library.Word"
begin

unbundle bit_operations_syntax

section \<open>Expression trees and their evaluation\<close>

text \<open>
  The program declares \<^verbatim>\<open>typedef unsigned long U32\<close> and \<^verbatim>\<open>typedef unsigned long BOOL\<close>.
  The width of \<^verbatim>\<open>unsigned long\<close> is left to the platform (32 bits on ILP32 and LLP64,
  64 bits on LP64), so an assignment word is an \<open>'a word\<close> for a length \<open>'a\<close> of at least
  32 bits; the theorems that depend on the width say so.

  The class hierarchy below \<^verbatim>\<open>struct Expr\<close> is a closed set of nine node types; each
  subclass is a constructor. \<^verbatim>\<open>True\<close>, \<^verbatim>\<open>False\<close> and \<^verbatim>\<open>Not\<close> carry a suffix because HOL has
  constants of these names. The member \<^verbatim>\<open>shift\<close> of \<^verbatim>\<open>Var\<close> is a shift count.
\<close>

datatype Expr =
    TrueE
  | FalseE
  | Var nat
  | NotE Expr
  | And Expr Expr
  | Or Expr Expr
  | Xor Expr Expr
  | Implies Expr Expr
  | Iff Expr Expr

text \<open>
  \<^verbatim>\<open>operator()(U32 x)\<close> of each node type. A comparison \<^verbatim>\<open>==\<close> yields a \<^verbatim>\<open>bool\<close> that is
  converted to \<^verbatim>\<open>BOOL\<close>, that is 1 or 0. A shift \<^verbatim>\<open>x>>shift\<close> by the width of the word or
  more is undefined in C++; \<open>drop_bit\<close> gives 0 there, and \<open>wf_expr\<close> below excludes it.
\<close>

fun eval :: "Expr \<Rightarrow> 'a::len word \<Rightarrow> 'a word" where
  "eval TrueE x = 1"
| "eval FalseE x = 0"
| "eval (Var shift) x = (drop_bit shift x) AND 1"
| "eval (NotE E) x = 1 XOR eval E x"
| "eval (And L R) x = eval L x AND eval R x"
| "eval (Or L R) x = eval L x OR eval R x"
| "eval (Xor L R) x = eval L x XOR eval R x"
| "eval (Implies L R) x = 1 XOR (eval L x AND (1 XOR eval R x))"
| "eval (Iff L R) x = (if eval L x = eval R x then 1 else 0)"

text \<open>An expression all of whose variables have an index below \<open>n\<close>.\<close>

fun wf_expr :: "nat \<Rightarrow> Expr \<Rightarrow> bool" where
  "wf_expr n TrueE = True"
| "wf_expr n FalseE = True"
| "wf_expr n (Var shift) = (shift < n)"
| "wf_expr n (NotE E) = wf_expr n E"
| "wf_expr n (And L R) = (wf_expr n L \<and> wf_expr n R)"
| "wf_expr n (Or L R) = (wf_expr n L \<and> wf_expr n R)"
| "wf_expr n (Xor L R) = (wf_expr n L \<and> wf_expr n R)"
| "wf_expr n (Implies L R) = (wf_expr n L \<and> wf_expr n R)"
| "wf_expr n (Iff L R) = (wf_expr n L \<and> wf_expr n R)"

subsection \<open>The evaluator of the specification\<close>

text \<open>
  The specification's data model: \<open>Constant(bool)\<close>, \<open>Variable(index)\<close>, \<open>Not(operand)\<close> and
  \<open>Binary(kind, left, right)\<close>, and its evaluator, a function to \<open>bool\<close> defined
  structurally. \<open>abstract\<close> maps a node of the program to the node of the specification.
\<close>

datatype kind = KAnd | KOr | KXor | KImplies | KIff

datatype spec_expr =
    Constant bool
  | Variable nat
  | SNot spec_expr
  | Binary kind spec_expr spec_expr

fun spec_eval :: "spec_expr \<Rightarrow> 'a::len word \<Rightarrow> bool" where
  "spec_eval (Constant v) a = v"
| "spec_eval (Variable i) a = bit a i"
| "spec_eval (SNot e) a = (\<not> spec_eval e a)"
| "spec_eval (Binary KAnd l r) a = (spec_eval l a \<and> spec_eval r a)"
| "spec_eval (Binary KOr l r) a = (spec_eval l a \<or> spec_eval r a)"
| "spec_eval (Binary KXor l r) a = (spec_eval l a \<noteq> spec_eval r a)"
| "spec_eval (Binary KImplies l r) a = (\<not> (spec_eval l a \<and> \<not> spec_eval r a))"
| "spec_eval (Binary KIff l r) a = (spec_eval l a = spec_eval r a)"

fun abstract :: "Expr \<Rightarrow> spec_expr" where
  "abstract TrueE = Constant True"
| "abstract FalseE = Constant False"
| "abstract (Var shift) = Variable shift"
| "abstract (NotE E) = SNot (abstract E)"
| "abstract (And L R) = Binary KAnd (abstract L) (abstract R)"
| "abstract (Or L R) = Binary KOr (abstract L) (abstract R)"
| "abstract (Xor L R) = Binary KXor (abstract L) (abstract R)"
| "abstract (Implies L R) = Binary KImplies (abstract L) (abstract R)"
| "abstract (Iff L R) = Binary KIff (abstract L) (abstract R)"

text \<open>The machine word that stands for a truth value.\<close>

definition of_bool_word :: "bool \<Rightarrow> 'a::len word" where
  "of_bool_word b = (if b then 1 else 0)"

section \<open>C strings\<close>

text \<open>
  A \<^verbatim>\<open>const char*\<close> is modelled by the list of the characters from the pointer up to, and
  without, the terminating NUL: \<^verbatim>\<open>*e == '\0'\<close> is \<open>e = []\<close>, \<^verbatim>\<open>e + n\<close> is \<open>drop n e\<close>, and a
  difference \<^verbatim>\<open>e - s\<close> of two pointers into one string is a count of characters, a \<open>nat\<close>
  (a line has fewer than 16384 characters, so the conversion to \<^verbatim>\<open>U32\<close> never wraps).
\<close>

text \<open>\<^verbatim>\<open>*e\<close>: the character under the pointer, the terminating NUL at the end.\<close>

definition deref :: "string \<Rightarrow> char" where
  "deref e = (case e of [] \<Rightarrow> CHR 0x00 | c # _ \<Rightarrow> c)"

text \<open>\<^verbatim>\<open>isspace\<close> of the C locale: space, \<^verbatim>\<open>\t \n \v \f \r\<close>.\<close>

definition isspace :: "char \<Rightarrow> bool" where
  "isspace c \<longleftrightarrow> c = CHR '' '' \<or> c = CHR 0x09 \<or> c = CHR 0x0A \<or> c = CHR 0x0B
     \<or> c = CHR 0x0C \<or> c = CHR 0x0D"

fun skipWS :: "string \<Rightarrow> nat" where
  "skipWS [] = 0"
| "skipWS (c # e) = (if isspace c then Suc (skipWS e) else 0)"

text \<open>
  \<^verbatim>\<open>parseString\<close>: the loop advances \<^verbatim>\<open>e\<close> and \<^verbatim>\<open>str\<close> together while both are inside their
  strings and agree; the third argument is \<^verbatim>\<open>e - s\<close>.
\<close>

fun parseString_loop :: "string \<Rightarrow> string \<Rightarrow> nat \<Rightarrow> nat" where
  "parseString_loop e [] k = k"
| "parseString_loop [] (c # str) k = 0"
| "parseString_loop (d # e) (c # str) k = (if d = c then parseString_loop e str (Suc k) else 0)"

definition parseString :: "string \<Rightarrow> string \<Rightarrow> nat" where
  "parseString s str = parseString_loop s str 0"

definition parseOneString :: "string \<Rightarrow> string \<Rightarrow> string \<Rightarrow> nat" where
  "parseOneString s str1 str2 =
     (let n = parseString s str1 in if n \<noteq> 0 then n else parseString s str2)"

section \<open>The variable registry\<close>

text \<open>
  What ends the run inside the parser. \<open>OverVariables\<close> is \<^verbatim>\<open>exit(1)\<close> after the message
  "over 32 propositional variables". \<open>NullOperand\<close> stands for the use of a
  \<^verbatim>\<open>shared_ptr\<close> that was never assigned, as an operand of a new node or as a
  proposition (a callee returned a length other than 0 without writing its
  out-parameter); a tree has no place for a null child, so the model ends the run where
  the program would go on with one. \<open>parse_never_null\<close>, \<open>readLines_never_null\<close> and
  \<open>main_exit_code\<close> show that it does not happen.
\<close>

datatype error = OverVariables | NullOperand

text \<open>
  The global \<^verbatim>\<open>vector<string> variables\<close> is passed in and returned. The block at the end
  of \<^verbatim>\<open>parseVar\<close>: a linear search for the name, \<^verbatim>\<open>push_back\<close> when it is not found, then
  the test of the size.
\<close>

fun search :: "string list \<Rightarrow> string \<Rightarrow> nat" where
  "search [] var = 0"
| "search (v # vs) var = (if v = var then 0 else Suc (search vs var))"

definition resolve :: "string list \<Rightarrow> string \<Rightarrow> error + (nat \<times> string list)" where
  "resolve variables var =
     (let i = search variables var;
          variables' = (if i \<ge> length variables then variables @ [var] else variables)
      in if length variables' > 32 then Inl OverVariables else Inr (i, variables'))"

section \<open>The parser\<close>

text \<open>
  A parse function returns the number of characters consumed and writes the node through
  its reference parameter \<^verbatim>\<open>p\<close>. The model returns the count, the node written to \<^verbatim>\<open>p\<close>
  (\<open>None\<close> when \<^verbatim>\<open>p\<close> was not written) and the registry.
\<close>

definition parseTrue :: "string \<Rightarrow> nat \<times> Expr option" where
  "parseTrue s =
     (if deref s = CHR ''T'' then (1, Some TrueE)
      else let n = parseString s ''true'' in (n, if n \<noteq> 0 then Some TrueE else None))"

definition parseFalse :: "string \<Rightarrow> nat \<times> Expr option" where
  "parseFalse s =
     (if deref s = CHR ''F'' then (1, Some FalseE)
      else let n = parseString s ''false'' in (n, if n \<noteq> 0 then Some FalseE else None))"

text \<open>The first loop of \<^verbatim>\<open>parseVar\<close>: the distance to the closing bracket, if there is one.\<close>

fun findClose :: "string \<Rightarrow> nat option" where
  "findClose [] = None"
| "findClose (c # e) = (if c = CHR '']'' then Some 0 else map_option Suc (findClose e))"

text \<open>
  The name between \<^verbatim>\<open>startstr\<close> and the bracket: \<^verbatim>\<open>e\<close> steps back from the bracket over
  white space, but not below \<^verbatim>\<open>startstr\<close>, so the first character always stays.
\<close>

definition varName :: "string \<Rightarrow> string" where
  "varName region = (case region of [] \<Rightarrow> [] | c # cs \<Rightarrow> c # rev (dropWhile isspace (rev cs)))"

definition parseVar :: "string \<Rightarrow> string list \<Rightarrow> error + (nat \<times> Expr option \<times> string list)" where
  "parseVar s variables =
     (if deref s \<noteq> CHR ''['' then Inr (0, None, variables)
      else
        let e = drop 1 s; k = skipWS e; startstr = drop k e in
        case findClose startstr of
          None \<Rightarrow> Inr (0, None, variables)
        | Some len \<Rightarrow>
            (case resolve variables (varName (take len startstr)) of
               Inl err \<Rightarrow> Inl err
             | Inr (i, variables') \<Rightarrow> Inr (1 + k + len + 1, Some (Var i), variables')))"

text \<open>
  The scan of the operator in \<^verbatim>\<open>parseBinaryExpr\<close>: the number of characters up to the first
  delimiter. \<^verbatim>\<open>*(e+1)\<close> is read only when \<^verbatim>\<open>*e\<close> is not NUL.
\<close>

fun scanOp :: "string \<Rightarrow> nat" where
  "scanOp [] = 0"
| "scanOp (c # e) =
     (if c \<noteq> CHR ''!'' \<and> c \<noteq> CHR ''('' \<and> c \<noteq> CHR ''['' \<and> c \<noteq> CHR ''T'' \<and> c \<noteq> CHR ''F''
         \<and> (c \<noteq> CHR ''f'' \<or> deref e \<noteq> CHR ''a'') \<and> (c \<noteq> CHR ''t'' \<or> deref e \<noteq> CHR ''r'')
         \<and> (c \<noteq> CHR ''n'' \<or> deref e \<noteq> CHR ''o'') \<and> \<not> isspace c
      then Suc (scanOp e) else 0)"

text \<open>
  The sections of \<^verbatim>\<open>parseBinaryExpr\<close> between its two operands, each as the number of
  characters by which it advances \<^verbatim>\<open>e\<close>. \<open>openParen\<close>: white space, the opening parenthesis
  (\<open>None\<close> is the \<^verbatim>\<open>return 0\<close> when it is missing) and the white space before the left
  operand. \<open>parseOp\<close>: the section "Parse Operation String" with the two \<^verbatim>\<open>skipWS\<close> that
  follow it; it also returns the string \<^verbatim>\<open>op\<close>. \<open>closeParen\<close>: the section "Parse Closing
  Parenthesis".
\<close>

definition openParen :: "string \<Rightarrow> nat option" where
  "openParen s =
     (let k0 = skipWS s; e = drop k0 s in
      if deref e \<noteq> CHR ''('' then None else Some (k0 + 1 + skipWS (drop 1 e)))"

definition parseOp :: "string \<Rightarrow> string \<times> nat" where
  "parseOp e =
     (let k3 = skipWS e; startop = drop k3 e; kop = scanOp startop; op = take kop startop;
          e4 = drop kop startop; k4 = skipWS e4; e5 = drop k4 e4; k5 = skipWS e5
      in (op, k3 + kop + k4 + k5))"

definition closeParen :: "string \<Rightarrow> nat option" where
  "closeParen e =
     (let k7 = skipWS e in
      if deref (drop k7 e) \<noteq> CHR '')'' then None else Some (k7 + 1))"

text \<open>The chain of comparisons of \<^verbatim>\<open>op\<close> that ends \<^verbatim>\<open>parseBinaryExpr\<close>; \<open>None\<close> is its \<^verbatim>\<open>return 0\<close>.\<close>

definition binaryOp :: "string \<Rightarrow> Expr \<Rightarrow> Expr \<Rightarrow> Expr option" where
  "binaryOp op L R =
     (if op = ''and'' \<or> op = ''&'' then Some (And L R)
      else if op = ''or'' \<or> op = ''|'' then Some (Or L R)
      else if op = ''xor'' \<or> op = ''^'' then Some (Xor L R)
      else if op = ''then'' \<or> op = ''implies'' \<or> op = ''=>'' then Some (Implies L R)
      else if op = ''if'' \<or> op = ''<='' then Some (Implies R L)
      else if op = ''iff'' \<or> op = ''<=>'' then Some (Iff L R)
      else None)"

text \<open>
  \<^verbatim>\<open>parseExpr\<close>, \<^verbatim>\<open>parseNot\<close> and \<^verbatim>\<open>parseBinaryExpr\<close> call each other. In \<^verbatim>\<open>parseExpr\<close> the
  five alternatives are tried in the order of the source and the first that returns a
  length other than 0 wins; every alternative is given the same \<^verbatim>\<open>p\<close>, which a failed one
  leaves alone. The locals \<^verbatim>\<open>L\<close> and \<^verbatim>\<open>R\<close> start out null.
\<close>

function parseExpr :: "string \<Rightarrow> string list \<Rightarrow> error + (nat \<times> Expr option \<times> string list)"
  and parseNot :: "string \<Rightarrow> string list \<Rightarrow> error + (nat \<times> Expr option \<times> string list)"
  and parseBinaryExpr :: "string \<Rightarrow> string list \<Rightarrow> error + (nat \<times> Expr option \<times> string list)"
where
  "parseExpr s variables =
     (let k = skipWS s; e = drop k s in
      if fst (parseTrue e) \<noteq> 0 then Inr (k + fst (parseTrue e), snd (parseTrue e), variables)
      else if fst (parseFalse e) \<noteq> 0
        then Inr (k + fst (parseFalse e), snd (parseFalse e), variables)
      else
        case parseVar e variables of
          Inl err \<Rightarrow> Inl err
        | Inr (n, p, variables1) \<Rightarrow>
            if n \<noteq> 0 then Inr (k + n, p, variables1)
            else
              (case parseNot e variables1 of
                 Inl err \<Rightarrow> Inl err
               | Inr (n, p, variables2) \<Rightarrow>
                   if n \<noteq> 0 then Inr (k + n, p, variables2)
                   else
                     (case parseBinaryExpr e variables2 of
                        Inl err \<Rightarrow> Inl err
                      | Inr (n, p, variables3) \<Rightarrow>
                          if n \<noteq> 0 then Inr (k + n, p, variables3)
                          else Inr (0, p, variables3))))"
| "parseNot s variables =
     (let n = parseOneString s ''!'' ''not'' in
      if n \<noteq> 0 then
        (case parseExpr (drop n s) variables of
           Inl err \<Rightarrow> Inl err
         | Inr (m, L, variables1) \<Rightarrow>
             if m \<noteq> 0 then
               (case L of
                  None \<Rightarrow> Inl NullOperand
                | Some l \<Rightarrow> Inr (n + m, Some (NotE l), variables1))
             else Inr (0, None, variables1))
      else Inr (0, None, variables))"
| "parseBinaryExpr s variables =
     (case openParen s of
        None \<Rightarrow> Inr (0, None, variables)
      | Some c0 \<Rightarrow>
          (case parseExpr (drop c0 s) variables of
             Inl err \<Rightarrow> Inl err
           | Inr (n, L, variables1) \<Rightarrow>
               if n = 0 then Inr (0, None, variables1)
               else
                 (case parseOp (drop (c0 + n) s) of
                    (op, c1) \<Rightarrow>
                      (case parseExpr (drop (c0 + n + c1) s) variables1 of
                         Inl err \<Rightarrow> Inl err
                       | Inr (m, R, variables2) \<Rightarrow>
                           if m = 0 then Inr (0, None, variables2)
                           else
                             (case closeParen (drop (c0 + n + c1 + m) s) of
                                None \<Rightarrow> Inr (0, None, variables2)
                              | Some c2 \<Rightarrow>
                                  (case (L, R) of
                                     (Some l, Some r) \<Rightarrow>
                                       (case binaryOp op l r of
                                          Some b \<Rightarrow>
                                            Inr (c0 + n + c1 + m + c2, Some b, variables2)
                                        | None \<Rightarrow> Inr (0, None, variables2))
                                   | _ \<Rightarrow> Inl NullOperand))))))"
  by pat_completeness auto

termination
proof -
  have open_pos: "0 < c0 \<and> 0 < length s" if "openParen s = Some c0" for s c0
    using that by (cases s) (auto simp: openParen_def Let_def deref_def split: if_splits)
  have shorter: "Suc (2 * (length s - k)) < 2 * length s" if "0 < k" "0 < length s"
    for s :: string and k
    using that by linarith
  have not_pos: "Suc (2 * (length s - parseOneString s ''!'' ''not'')) < 2 * length s"
    if "0 < parseOneString s ''!'' ''not''" for s
    using that by (cases s) (auto simp: parseOneString_def parseString_def)
  show ?thesis
  proof (relation "measure (\<lambda>x. case x of
        Inl (s, _) \<Rightarrow> 2 * length s + 1
      | Inr (Inl (s, _)) \<Rightarrow> 2 * length s
      | Inr (Inr (s, _)) \<Rightarrow> 2 * length s)", goal_cases)
    case 1
    show ?case by simp
  next
    case 2
    then show ?case by simp
  next
    case 3
    then show ?case by simp
  next
    case 4
    then show ?case
      by (simp add: not_pos)
  next
    case 5
    then show ?case
      by (auto dest!: open_pos intro!: shorter)
  next
    case 6
    then show ?case
      by (auto dest!: open_pos intro!: shorter)
  qed
qed

declare parseExpr.simps [simp del] parseNot.simps [simp del] parseBinaryExpr.simps [simp del]

text \<open>
  \<^verbatim>\<open>parseTopLevelExpr\<close>. \<^verbatim>\<open>main\<close> only tests its result against 0, and on the second path the
  result is a difference between a pointer into the copy \<^verbatim>\<open>test\<close> and the pointer \<^verbatim>\<open>s\<close>,
  two different buffers; the model returns whether the result is other than 0. On the
  first path it is \<^verbatim>\<open>n\<close> plus the white space skipped, not 0 since \<^verbatim>\<open>n\<close> is not. The second
  attempt is given the \<^verbatim>\<open>p\<close> of the first and the registry as the first left it.
\<close>

definition parseTopLevelExpr ::
  "string \<Rightarrow> string list \<Rightarrow> error + (bool \<times> Expr option \<times> string list)" where
  "parseTopLevelExpr s variables =
     (case parseExpr s variables of
        Inl err \<Rightarrow> Inl err
      | Inr (n, p, variables1) \<Rightarrow>
          let e = drop n s; e' = drop (skipWS e) e in
          if n \<noteq> 0 \<and> e' = [] then Inr (True, p, variables1)
          else
            let test = ''('' @ s @ '')'' in
            (case parseExpr test variables1 of
               Inl err \<Rightarrow> Inl err
             | Inr (n2, p2, variables2) \<Rightarrow>
                 let e = drop n2 test; e' = drop (skipWS e) e;
                     p' = (case p2 of None \<Rightarrow> p | Some _ \<Rightarrow> p2)
                 in if n2 \<noteq> 0 \<and> e' = [] then Inr (True, p', variables2)
                    else Inr (False, p', variables2)))"

section \<open>The main program\<close>

text \<open>
  What the run prints, apart from the message of \<open>OverVariables\<close>, which \<^verbatim>\<open>parseVar\<close> prints
  itself. The table of a counterexample is the list of its rows, a name and a truth value.
  Opening the file and the usage message stay outside: the input is the list of the
  lines as \<^verbatim>\<open>fgets\<close> delivers them.
\<close>

datatype report =
    SyntaxErrorLine nat
  | NoTheorem
  | TheoremFalse "(string \<times> bool) list"
  | AxiomsNotConsistent
  | TheoremVerified

text \<open>
  The loop over the lines: \<^verbatim>\<open>linenum\<close> counts every line read, lines that start with
  \<^verbatim>\<open>//\<close> and lines of white space only are skipped. \<open>Inl\<close> is a run that ends in the loop,
  with what \<^verbatim>\<open>main\<close> then returns.
\<close>

fun readLines ::
  "string list \<Rightarrow> nat \<Rightarrow> Expr list \<Rightarrow> string list
     \<Rightarrow> error + ((report \<times> int) + (Expr list \<times> string list))" where
  "readLines [] linenum propositions variables = Inr (Inr (propositions, variables))"
| "readLines (line # rest) linenum propositions variables =
     (if deref line = CHR ''/'' \<and> deref (drop 1 line) = CHR ''/''
        then readLines rest (linenum + 1) propositions variables
      else if drop (skipWS line) line = []
        then readLines rest (linenum + 1) propositions variables
      else
        case parseTopLevelExpr line variables of
          Inl err \<Rightarrow> Inl err
        | Inr (ok, p, variables') \<Rightarrow>
            if \<not> ok then Inr (Inl (SyntaxErrorLine (linenum + 1), 1))
            else
              (case p of
                 None \<Rightarrow> Inl NullOperand
               | Some e \<Rightarrow> readLines rest (linenum + 1) (propositions @ [e]) variables'))"

text \<open>
  \<^verbatim>\<open>U32 max = 1; for (int i = 1; i < variables.size(); i++) max |= (1 << i);\<close>
  The shift is a shift of the \<^verbatim>\<open>int\<close> 1, a 32-bit two's complement value; the conversion
  to \<^verbatim>\<open>unsigned long\<close> extends its sign.
\<close>

definition computeMax :: "nat \<Rightarrow> 'a::len word" where
  "computeMax n = fold (\<lambda>i xmax. xmax OR scast (push_bit i (1 :: 32 word))) [1..<n] 1"

text \<open>
  The loop over the axioms for one \<^verbatim>\<open>x\<close>: it returns the final \<^verbatim>\<open>i\<close>. The last argument
  is not in the program: it records the indices of the propositions that have been
  evaluated at \<^verbatim>\<open>x\<close>, in order.
\<close>

function axiomLoop :: "Expr list \<Rightarrow> 'a::len word \<Rightarrow> nat \<Rightarrow> nat list \<Rightarrow> nat \<times> nat list" where
  "axiomLoop propositions x i evs =
     (if i < length propositions - 1 then
        (if eval (propositions ! i) x = 0 then (i, evs @ [i])
         else axiomLoop propositions x (Suc i) (evs @ [i]))
      else (i, evs))"
  by pat_completeness auto
termination
  by (relation "measure (\<lambda>(propositions, x, i, evs). length propositions - 1 - i)") auto

declare axiomLoop.simps [simp del]

text \<open>
  How the loop over \<^verbatim>\<open>x\<close> ends: at a counterexample, or past \<^verbatim>\<open>max\<close> with the flag
  \<^verbatim>\<open>axiomsConsistent\<close>.
\<close>

datatype 'w outcome = Counterexample 'w | Finished bool

text \<open>
  \<^verbatim>\<open>for (U32 x = 0; x <= max; x++)\<close>. The increment wraps around, and the loop need not
  end: \<open>None\<close> is a run that never leaves it (\<open>xmax\<close> is the program's \<^verbatim>\<open>max\<close>). The last argument is not in the program: it
  records, for each \<^verbatim>\<open>x\<close> the loop has visited, the propositions evaluated there.
\<close>

partial_function (option) enumerate ::
  "Expr list \<Rightarrow> 'a::len word \<Rightarrow> 'a word \<Rightarrow> bool \<Rightarrow> ('a word \<times> nat list) list
     \<Rightarrow> ('a word outcome \<times> ('a word \<times> nat list) list) option" where
  "enumerate propositions xmax x axiomsConsistent trace =
     (if x \<le> xmax then
        (case axiomLoop propositions x 0 [] of
           (i, evs) \<Rightarrow>
             if i \<noteq> length propositions - 1
               then enumerate propositions xmax (x + 1) axiomsConsistent (trace @ [(x, evs)])
             else if eval (propositions ! i) x = 0
               then Some (Counterexample x, trace @ [(x, evs @ [i])])
             else enumerate propositions xmax (x + 1) True (trace @ [(x, evs @ [i])]))
      else Some (Finished axiomsConsistent, trace))"

declare enumerate.simps [code]

text \<open>The rows printed for a counterexample: \<^verbatim>\<open>(U32(1)<<j)&x\<close> decides the column.\<close>

definition table :: "string list \<Rightarrow> 'a::len word \<Rightarrow> (string \<times> bool) list" where
  "table variables x = map (\<lambda>j. (variables ! j, push_bit j 1 AND x \<noteq> 0)) [0..<length variables]"

text \<open>The end of \<^verbatim>\<open>main\<close>: what is printed and returned for each way the loop ends.\<close>

definition verdict :: "string list \<Rightarrow> 'a::len word outcome \<Rightarrow> report \<times> int" where
  "verdict variables out =
     (case out of
        Counterexample x \<Rightarrow> (TheoremFalse (table variables x), 1)
      | Finished axiomsConsistent \<Rightarrow>
          if \<not> axiomsConsistent then (AxiomsNotConsistent, 0) else (TheoremVerified, 0))"

text \<open>
  \<^verbatim>\<open>main\<close> after the file is read, with the record of the evaluations, and \<^verbatim>\<open>main\<close>. The
  type argument fixes the width of \<^verbatim>\<open>unsigned long\<close>.
\<close>

definition check ::
  "'a::len itself \<Rightarrow> string list \<Rightarrow> Expr list
     \<Rightarrow> ((report \<times> int) \<times> ('a word \<times> nat list) list) option" where
  "check w variables propositions =
     (if length propositions < 1 then Some ((NoTheorem, 1), [])
      else
        case enumerate propositions (computeMax (length variables)) 0 False [] of
          None \<Rightarrow> None
        | Some (out, trace) \<Rightarrow> Some (verdict variables out, trace))"

definition main :: "'a::len itself \<Rightarrow> string list \<Rightarrow> (error + (report \<times> int)) option" where
  "main w lines =
     (case readLines lines 0 [] [] of
        Inl err \<Rightarrow> Some (Inl err)
      | Inr (Inl r) \<Rightarrow> Some (Inr r)
      | Inr (Inr (propositions, variables)) \<Rightarrow>
          map_option (\<lambda>(r, trace). Inr r) (check w variables propositions))"

text \<open>The exit code of a run; \<^verbatim>\<open>parseVar\<close> ends the run with \<^verbatim>\<open>exit(1)\<close>.\<close>

definition exit_code :: "error + (report \<times> int) \<Rightarrow> int option" where
  "exit_code r =
     (case r of
        Inl OverVariables \<Rightarrow> Some 1
      | Inl NullOperand \<Rightarrow> None
      | Inr (_, c) \<Rightarrow> Some c)"

section \<open>Predicates used in the statements\<close>

text \<open>
  The registry only grows at its end, and stays within 32 names once it is.
\<close>

definition reg_le :: "string list \<Rightarrow> string list \<Rightarrow> bool" where
  "reg_le variables variables' \<longleftrightarrow>
     (\<exists>ws. variables' = variables @ ws) \<and> (length variables \<le> 32 \<longrightarrow> length variables' \<le> 32)"

text \<open>
  What every parse function guarantees about its result on the string \<open>s\<close>: the run ends
  inside it only by the limit on the variables; the length is 0 exactly when no node was
  written; the length stays within the string; the node only uses registered variables.
\<close>

definition parse_inv ::
  "string \<Rightarrow> string list \<Rightarrow> error + (nat \<times> Expr option \<times> string list) \<Rightarrow> bool" where
  "parse_inv s variables r =
     (case r of
        Inl err \<Rightarrow> err = OverVariables
      | Inr (n, p, variables') \<Rightarrow>
          (n = 0 \<longleftrightarrow> p = None) \<and> n \<le> length s \<and> reg_le variables variables'
          \<and> (\<forall>E. p = Some E \<longrightarrow> wf_expr (length variables') E))"

text \<open>
  The attempt of the specification's top-level parse: "parse the string as a single Expr
  that consumes the entire (whitespace-trimmed) line". The result is the node when the
  attempt succeeds and \<open>None\<close> when it fails, with the registry it leaves behind. \<open>blank\<close>
  says that only white space is left.
\<close>

definition blank :: "string \<Rightarrow> bool" where
  "blank e = list_all isspace e"


text \<open>A line that the loop over the lines skips: a comment or white space only.\<close>

definition skipped :: "string \<Rightarrow> bool" where
  "skipped line \<longleftrightarrow>
     (deref line = CHR ''/'' \<and> deref (drop 1 line) = CHR ''/'') \<or> drop (skipWS line) line = []"

text \<open>
  A name that \<^verbatim>\<open>parseVar\<close> reads back unchanged from between two brackets: it has no
  closing bracket in it and neither starts nor ends with white space (the empty name is
  one). \<open>register\<close> adds the names of a list to a registry in the order of their first
  occurrence, each once, without any limit.
\<close>

definition plain :: "string \<Rightarrow> bool" where
  "plain name \<longleftrightarrow>
     list_all (\<lambda>c. c \<noteq> CHR '']'') name
     \<and> (case name of [] \<Rightarrow> True | c # cs \<Rightarrow> \<not> isspace c \<and> \<not> isspace (last name))"

fun register :: "string list \<Rightarrow> string list \<Rightarrow> string list" where
  "register variables [] = variables"
| "register variables (name # names) =
     register (if name \<in> set variables then variables else variables @ [name]) names"

text \<open>
  An assignment at which every axiom holds (a model), and a model at which the theorem
  fails (a counterexample). The axioms are all propositions but the last, the theorem is
  the last; a proposition holds when its value is not 0, as the tests \<^verbatim>\<open>!(...)(x)\<close> of
  \<^verbatim>\<open>main\<close> read it.
\<close>

definition models :: "Expr list \<Rightarrow> 'a::len word \<Rightarrow> bool" where
  "models propositions x = list_all (\<lambda>p. eval p x \<noteq> 0) (butlast propositions)"

definition cex :: "Expr list \<Rightarrow> 'a::len word \<Rightarrow> bool" where
  "cex propositions x \<longleftrightarrow>
     models propositions x \<and> eval (propositions ! (length propositions - 1)) x = 0"

text \<open>The words from 0 to \<open>xmax\<close>, ascending.\<close>

definition assignments :: "'a::len word \<Rightarrow> 'a word list" where
  "assignments xmax = map of_nat [0..<Suc (unat xmax)]"

text \<open>
  What one pass of the loop over \<^verbatim>\<open>x\<close> records: \<^verbatim>\<open>x\<close> and the propositions evaluated at
  \<^verbatim>\<open>x\<close>, the axioms up to the first that fails and, when none fails, the theorem.
\<close>

definition visit :: "Expr list \<Rightarrow> 'a::len word \<Rightarrow> 'a word \<times> nat list" where
  "visit propositions x =
     (case axiomLoop propositions x 0 [] of
        (i, evs) \<Rightarrow> (x, if i \<noteq> length propositions - 1 then evs else evs @ [i]))"

section \<open>Properties of the evaluator\<close>

lemma of_bool_word_cases:
  "(of_bool_word b :: 'a::len word) = 0 \<or> (of_bool_word b :: 'a word) = 1"
  by (simp add: of_bool_word_def)

lemma of_bool_word_nonzero: "((of_bool_word b :: 'a::len word) \<noteq> 0) = b"
  by (simp add: of_bool_word_def)

lemma var_bit: "(drop_bit i x AND 1 :: 'a::len word) = of_bool_word (bit x i)"
  by (simp add: of_bool_word_def and_one_eq mod_2_eq_odd bit_iff_odd_drop_bit)

lemma eval_abstract: "eval E x = of_bool_word (spec_eval (abstract E) x)"
  by (induction E) (simp_all add: var_bit, simp_all add: of_bool_word_def)

lemma eval_bit: "eval E x = 0 \<or> eval E x = 1"
  by (simp add: eval_abstract of_bool_word_cases)

text \<open>
  Claim C1. For a tree whose shifts stay below the width of the word, the word that
  \<open>eval\<close> returns is the truth value that the structural evaluator of the specification
  gives for the same tree and the same assignment: a constant yields itself, a variable
  the bit of the assignment at its index, \<open>Not\<close> the negation, \<open>And\<close>, \<open>Or\<close>, \<open>Xor\<close> the
  conjunction, disjunction and exclusive or, \<open>Implies\<close> the negation of "left and not
  right", \<open>Iff\<close> the equality of the two values. \<open>eval\<close> is a total function of the tree
  and the word: it has no state to change and no error to return.
\<close>

theorem eval_refines_spec_eval:
  fixes x :: "'a::len word"
  assumes "wf_expr LENGTH('a) E"
  shows "eval E x = of_bool_word (spec_eval (abstract E) x)
       \<and> (eval E x \<noteq> 0) = spec_eval (abstract E) x"
  by (simp add: eval_abstract of_bool_word_nonzero)

theorem eval_refines_spec_eval_witness:
  "wf_expr LENGTH(32) (Implies (Var 3) (NotE (Var 0)))
   \<and> eval (Implies (Var 3) (NotE (Var 0))) (9 :: 32 word)
       = of_bool_word (spec_eval (abstract (Implies (Var 3) (NotE (Var 0)))) (9 :: 32 word))
   \<and> (eval (Implies (Var 3) (NotE (Var 0))) (9 :: 32 word) \<noteq> 0)
       = spec_eval (abstract (Implies (Var 3) (NotE (Var 0)))) (9 :: 32 word)"
proof -
  have h: "wf_expr LENGTH(32) (Implies (Var 3) (NotE (Var 0)))"
    by simp
  show ?thesis
    using h eval_refines_spec_eval [OF h, of "9 :: 32 word"] by blast
qed

section \<open>Properties of the registry\<close>

lemma search_le: "search variables var \<le> length variables"
  by (induction variables) auto

lemma search_mem:
  "var \<in> set variables \<Longrightarrow>
   search variables var < length variables \<and> variables ! search variables var = var"
  by (induction variables) auto

lemma search_not_mem: "var \<notin> set variables \<Longrightarrow> search variables var = length variables"
  by (induction variables) auto

lemma search_append:
  "var \<notin> set variables \<Longrightarrow> search (variables @ [var]) var = length variables"
  by (induction variables) auto

lemma search_first: "j < search variables var \<Longrightarrow> variables ! j \<noteq> var"
  by (induction variables arbitrary: j) (auto simp: nth_Cons' split: if_splits)

lemma resolve_known:
  "var \<in> set variables \<Longrightarrow> length variables \<le> 32 \<Longrightarrow>
   resolve variables var = Inr (search variables var, variables)"
  using search_mem [of var variables] by (simp add: resolve_def Let_def)

lemma resolve_new:
  "var \<notin> set variables \<Longrightarrow> length variables < 32 \<Longrightarrow>
   resolve variables var = Inr (length variables, variables @ [var])"
  by (simp add: resolve_def Let_def search_not_mem)

lemma resolve_full:
  "var \<notin> set variables \<Longrightarrow> length variables = 32 \<Longrightarrow>
   resolve variables var = Inl OverVariables"
  by (simp add: resolve_def Let_def search_not_mem)

lemma resolve_Inr:
  assumes "resolve variables var = Inr (i, variables')"
  shows "i < length variables' \<and> variables' ! i = var \<and> length variables' \<le> 32
       \<and> (\<forall>j<i. variables' ! j \<noteq> var)
       \<and> variables' = (if var \<in> set variables then variables else variables @ [var])"
proof (cases "var \<in> set variables")
  case True
  with assms search_mem [of var variables] search_first [of _ variables var] show ?thesis
    by (auto simp: resolve_def Let_def split: if_splits)
next
  case False
  with assms search_first [of _ variables var] show ?thesis
    by (auto simp: resolve_def Let_def search_not_mem nth_append split: if_splits)
qed

lemma resolve_again:
  assumes "resolve variables var = Inr (i, variables')"
  shows "resolve variables' var = Inr (i, variables')"
proof (cases "var \<in> set variables")
  case True
  with assms search_mem [of var variables] show ?thesis
    by (auto simp: resolve_def Let_def split: if_splits)
next
  case False
  with assms have "variables' = variables @ [var]" "i = length variables"
    "length variables < 32"
    by (auto simp: resolve_def Let_def search_not_mem split: if_splits)
  with False show ?thesis
    by (simp add: resolve_def Let_def search_append)
qed

section \<open>Properties of the parser\<close>

lemma reg_le_refl: "reg_le v v"
  by (simp add: reg_le_def)

lemma reg_le_trans: "reg_le u v \<Longrightarrow> reg_le v w \<Longrightarrow> reg_le u w"
  by (auto simp: reg_le_def)

lemma reg_le_length: "reg_le u v \<Longrightarrow> length u \<le> length v"
  by (auto simp: reg_le_def)

lemma inv_Inl: "parse_inv s v (Inl err) \<longleftrightarrow> err = OverVariables"
  by (simp add: parse_inv_def)

lemma inv_fail: "reg_le v v' \<Longrightarrow> parse_inv s v (Inr (0, None, v'))"
  by (simp add: parse_inv_def)

lemma inv_ok:
  "n \<noteq> 0 \<Longrightarrow> n \<le> length s \<Longrightarrow> reg_le v v' \<Longrightarrow> wf_expr (length v') E \<Longrightarrow>
   parse_inv s v (Inr (n, Some E, v'))"
  by (simp add: parse_inv_def)

lemma inv_InrD:
  "parse_inv s v (Inr (n, p, v')) \<Longrightarrow>
   reg_le v v' \<and> n \<le> length s
   \<and> ((n = 0 \<and> p = None) \<or> (n \<noteq> 0 \<and> (\<exists>E. p = Some E \<and> wf_expr (length v') E)))"
  by (cases p) (auto simp: parse_inv_def)

lemma wf_expr_mono: "wf_expr n E \<Longrightarrow> n \<le> m \<Longrightarrow> wf_expr m E"
  by (induction E) auto

lemma skipWS_le: "skipWS s \<le> length s"
  by (induction s) auto

lemma parseString_loop_le: "parseString_loop e str k \<le> k + length e"
  by (induction e str k rule: parseString_loop.induct) auto

lemma parseString_le: "parseString s str \<le> length s"
  using parseString_loop_le [of s str 0] by (simp add: parseString_def)

lemma parseOneString_le: "parseOneString s a b \<le> length s"
  by (simp add: parseOneString_def Let_def parseString_le)

lemma findClose_less: "findClose e = Some len \<Longrightarrow> len < length e"
  by (induction e arbitrary: len) (auto split: if_splits)

lemma parseTrue_inv: "parseTrue s = (n, p) \<Longrightarrow> (n = 0 \<longleftrightarrow> p = None) \<and> n \<le> length s \<and> (p = None \<or> p = Some TrueE)"
  using parseString_le [of s "''true''"]
  by (cases s) (auto simp: parseTrue_def deref_def Let_def split: if_splits)

lemma parseFalse_inv: "parseFalse s = (n, p) \<Longrightarrow> (n = 0 \<longleftrightarrow> p = None) \<and> n \<le> length s \<and> (p = None \<or> p = Some FalseE)"
  using parseString_le [of s "''false''"]
  by (cases s) (auto simp: parseFalse_def deref_def Let_def split: if_splits)

lemma parseVar_inv: "parse_inv s variables (parseVar s variables)"
proof (cases "parseVar s variables")
  case (Inl err)
  then show ?thesis
    by (auto simp: parse_inv_def parseVar_def resolve_def Let_def split: if_splits option.splits sum.splits)
next
  case (Inr r)
  obtain n p variables' where r: "r = (n, p, variables')" by (cases r) auto
  show ?thesis
  proof (cases "n = 0")
    case True
    with Inr r show ?thesis
      by (auto simp: parse_inv_def parseVar_def Let_def reg_le_refl split: if_splits option.splits sum.splits)
  next
    case False
    with Inr r obtain e len i where s: "s = CHR ''['' # e"
      and fc: "findClose (drop (skipWS e) e) = Some len"
      and res: "resolve variables (varName (take len (drop (skipWS e) e))) = Inr (i, variables')"
      and n: "n = 1 + skipWS e + len + 1" and p: "p = Some (Var i)"
      by (cases s) (auto simp: parseVar_def deref_def Let_def split: if_splits option.splits sum.splits)
    from findClose_less [OF fc] have "skipWS e + len < length e" by simp
    with s n have "n \<le> length s" by simp
    with Inr r n p resolve_Inr [OF res] show ?thesis
      by (auto simp: parse_inv_def reg_le_def)
  qed
qed

lemma parseExpr_inv_step:
  assumes N: "\<And>v. parse_inv (drop (skipWS s) s) v (parseNot (drop (skipWS s) s) v)"
    and B: "\<And>v. parse_inv (drop (skipWS s) s) v (parseBinaryExpr (drop (skipWS s) s) v)"
  shows "parse_inv s variables (parseExpr s variables)"
proof -
  define k where "k = skipWS s"
  define e where "e = drop k s"
  have len: "length e = length s - k" "k \<le> length s"
    by (simp_all add: e_def k_def skipWS_le)
  have shift: "parse_inv s variables (Inr (k + n, p, v'))"
    if "parse_inv e v (Inr (n, p, v'))" "n \<noteq> 0" "reg_le variables v" for n p v v'
    using inv_InrD [OF that(1)] that(2,3) len
    by (auto intro!: inv_ok intro: reg_le_trans)
  have fail: "parse_inv s variables (Inr (0, p, v'))"
    if "parse_inv e v (Inr (0, p, v'))" "reg_le variables v" for p v v'
    using inv_InrD [OF that(1)] that(2)
    by (auto intro!: inv_fail intro: reg_le_trans)
  show ?thesis
  proof (cases "fst (parseTrue e) \<noteq> 0")
    case True
    obtain n p where t: "parseTrue e = (n, p)" by (cases "parseTrue e") auto
    with True parseTrue_inv [OF t] len have "parse_inv s variables (Inr (k + n, p, variables))"
      by (auto intro!: inv_ok reg_le_refl)
    with True t show ?thesis
      by (simp add: parseExpr.simps [of s variables] Let_def flip: k_def e_def)
  next
    case nt: False
    show ?thesis
    proof (cases "fst (parseFalse e) \<noteq> 0")
      case True
      obtain n p where t: "parseFalse e = (n, p)" by (cases "parseFalse e") auto
      with True parseFalse_inv [OF t] len have "parse_inv s variables (Inr (k + n, p, variables))"
        by (auto intro!: inv_ok reg_le_refl)
      with True nt t show ?thesis
        by (simp add: parseExpr.simps [of s variables] Let_def flip: k_def e_def)
    next
      case nf: False
      show ?thesis
      proof (cases "parseVar e variables")
        case (Inl err)
        with parseVar_inv [of e variables] nt nf show ?thesis
          by (simp add: parseExpr.simps [of s variables] Let_def inv_Inl flip: k_def e_def)
      next
        case (Inr r1)
        obtain n1 p1 v1 where r1: "r1 = (n1, p1, v1)" by (cases r1) auto
        from parseVar_inv [of e variables] Inr r1
        have i1: "parse_inv e variables (Inr (n1, p1, v1))" by simp
        from inv_InrD [OF i1] have le1: "reg_le variables v1" by simp
        show ?thesis
        proof (cases "n1 \<noteq> 0")
          case True
          with shift [OF i1 _ reg_le_refl] nt nf Inr r1 show ?thesis
            by (simp add: parseExpr.simps [of s variables] Let_def flip: k_def e_def)
        next
          case z1: False
          show ?thesis
          proof (cases "parseNot e v1")
            case (Inl err)
            with N [of v1] nt nf Inr r1 z1 show ?thesis
              by (simp add: parseExpr.simps [of s variables] Let_def inv_Inl flip: k_def e_def)
          next
            case r2': (Inr r2)
            obtain n2 p2 v2 where r2: "r2 = (n2, p2, v2)" by (cases r2) auto
            from N [of v1] r2' r2
            have i2: "parse_inv e v1 (Inr (n2, p2, v2))" by (simp add: e_def k_def)
            from inv_InrD [OF i2] le1 have le2: "reg_le variables v2"
              by (auto intro: reg_le_trans)
            show ?thesis
            proof (cases "n2 \<noteq> 0")
              case True
              with shift [OF i2 _ le1] nt nf Inr r1 z1 r2' r2 show ?thesis
                by (simp add: parseExpr.simps [of s variables] Let_def flip: k_def e_def)
            next
              case z2: False
              show ?thesis
              proof (cases "parseBinaryExpr e v2")
                case (Inl err)
                with B [of v2] nt nf Inr r1 z1 r2' r2 z2 show ?thesis
                  by (simp add: parseExpr.simps [of s variables] Let_def inv_Inl flip: k_def e_def)
              next
                case r3': (Inr r3)
                obtain n3 p3 v3 where r3: "r3 = (n3, p3, v3)" by (cases r3) auto
                from B [of v2] r3' r3
                have i3: "parse_inv e v2 (Inr (n3, p3, v3))" by (simp add: e_def k_def)
                show ?thesis
                proof (cases "n3 \<noteq> 0")
                  case True
                  with shift [OF i3 _ le2] nt nf Inr r1 z1 r2' r2 z2 r3' r3 show ?thesis
                    by (simp add: parseExpr.simps [of s variables] Let_def flip: k_def e_def)
                next
                  case False
                  with i3 have "parse_inv e v2 (Inr (0, p3, v3))" by simp
                  from fail [OF this le2] False nt nf Inr r1 z1 r2' r2 z2 r3' r3 show ?thesis
                    by (simp add: parseExpr.simps [of s variables] Let_def flip: k_def e_def)
                qed
              qed
            qed
          qed
        qed
      qed
    qed
  qed
qed

lemma parseOneString_not_pos: "parseOneString s ''!'' ''not'' \<noteq> 0 \<Longrightarrow> s \<noteq> []"
  by (auto simp: parseOneString_def parseString_def Let_def)

lemma parseNot_inv_step:
  assumes IH: "\<And>s' v. length s' < length s \<Longrightarrow> parse_inv s' v (parseExpr s' v)"
  shows "parse_inv s variables (parseNot s variables)"
proof -
  define n where "n = parseOneString s ''!'' ''not''"
  show ?thesis
  proof (cases "n \<noteq> 0")
    case False
    then show ?thesis
      by (simp add: parseNot.simps [of s variables] Let_def inv_fail reg_le_refl flip: n_def)
  next
    case True
    with parseOneString_not_pos [of s] have "s \<noteq> []" by (simp add: n_def)
    with True have shorter: "length (drop n s) < length s" by simp
    have nle: "n \<le> length s" by (simp add: n_def parseOneString_le)
    show ?thesis
    proof (cases "parseExpr (drop n s) variables")
      case (Inl err)
      with IH [OF shorter, of variables] True show ?thesis
        by (simp add: parseNot.simps [of s variables] Let_def inv_Inl flip: n_def)
    next
      case (Inr r)
      obtain m L v1 where r: "r = (m, L, v1)" by (cases r) auto
      from IH [OF shorter, of variables] Inr r
      have i: "parse_inv (drop n s) variables (Inr (m, L, v1))" by simp
      show ?thesis
      proof (cases "m \<noteq> 0")
        case False
        with inv_InrD [OF i] True Inr r show ?thesis
          by (simp add: parseNot.simps [of s variables] Let_def inv_fail flip: n_def)
      next
        case m: True
        with inv_InrD [OF i] obtain l where l: "L = Some l" "wf_expr (length v1) l"
          "reg_le variables v1" "m \<le> length s - n" by auto
        with nle True have "parse_inv s variables (Inr (n + m, Some (NotE l), v1))"
          by (auto intro!: inv_ok)
        with True m Inr r l show ?thesis
          by (simp add: parseNot.simps [of s variables] Let_def flip: n_def)
      qed
    qed
  qed
qed

lemma if_le_nat: "(if C then (a::nat) else 0) \<le> a"
  by simp

lemma scanOp_le: "scanOp e \<le> length e"
proof (induction e)
  case Nil
  show ?case by simp
next
  case (Cons c e)
  have "scanOp (c # e) \<le> Suc (scanOp e)"
    unfolding scanOp.simps by (rule if_le_nat)
  with Cons show ?case by (simp del: scanOp.simps)
qed

lemma binaryOp_cases:
  "binaryOp op l r = Some b \<Longrightarrow>
   b = And l r \<or> b = Or l r \<or> b = Xor l r \<or> b = Implies l r \<or> b = Implies r l \<or> b = Iff l r"
  unfolding binaryOp_def by (simp split: if_splits)

lemma binaryOp_wf: "binaryOp op l r = Some b \<Longrightarrow> wf_expr n l \<Longrightarrow> wf_expr n r \<Longrightarrow> wf_expr n b"
  by (drule binaryOp_cases) auto

lemma openParen_bounds: "openParen s = Some c0 \<Longrightarrow> 0 < c0 \<and> c0 \<le> length s"
proof -
  assume a: "openParen s = Some c0"
  define k0 where "k0 = skipWS s"
  from a have p: "deref (drop k0 s) = CHR ''(''" and c: "c0 = k0 + 1 + skipWS (drop 1 (drop k0 s))"
    by (auto simp: openParen_def Let_def k0_def split: if_splits)
  from p have "drop k0 s \<noteq> []" by (auto simp: deref_def)
  then have "k0 < length s" by simp
  moreover have "skipWS (drop 1 (drop k0 s)) \<le> length s - k0 - 1"
    using skipWS_le [of "drop 1 (drop k0 s)"] by simp
  ultimately show ?thesis using c by simp
qed

lemma parseOp_le: "parseOp e = (op, c1) \<Longrightarrow> c1 \<le> length e"
proof -
  assume a: "parseOp e = (op, c1)"
  define k3 where "k3 = skipWS e"
  define startop where "startop = drop k3 e"
  define kop where "kop = scanOp startop"
  define e4 where "e4 = drop kop startop"
  define k4 where "k4 = skipWS e4"
  define e5 where "e5 = drop k4 e4"
  define k5 where "k5 = skipWS e5"
  have "parseOp e = (take kop startop, k3 + kop + k4 + k5)"
    unfolding parseOp_def Let_def k3_def startop_def kop_def e4_def k4_def e5_def k5_def
    by (rule refl)
  with a have "c1 = k3 + kop + k4 + k5"
    by simp
  moreover have "k3 \<le> length e" "length startop = length e - k3" "kop \<le> length startop"
    "length e4 = length startop - kop" "k4 \<le> length e4" "length e5 = length e4 - k4"
    "k5 \<le> length e5"
    unfolding k3_def startop_def kop_def e4_def k4_def e5_def k5_def
    by (rule length_drop skipWS_le scanOp_le)+
  ultimately show ?thesis by arith
qed

lemma closeParen_bounds: "closeParen e = Some c2 \<Longrightarrow> 0 < c2 \<and> c2 \<le> length e"
proof -
  assume a: "closeParen e = Some c2"
  then have p: "deref (drop (skipWS e) e) = CHR '')''" and c: "c2 = skipWS e + 1"
    by (auto simp: closeParen_def Let_def split: if_splits)
  from p have "drop (skipWS e) e \<noteq> []" by (auto simp: deref_def)
  then have "skipWS e < length e" by simp
  with c show ?thesis by simp
qed

lemma parseBinaryExpr_inv_step:
  assumes IH: "\<And>s' v. length s' < length s \<Longrightarrow> parse_inv s' v (parseExpr s' v)"
  shows "parse_inv s variables (parseBinaryExpr s variables)"
proof (cases "openParen s")
  case None
  then show ?thesis
    by (simp add: parseBinaryExpr.simps [of s variables] inv_fail reg_le_refl)
next
  case (Some c0)
  note c0 = openParen_bounds [OF Some]
  then have shorter1: "length (drop c0 s) < length s" by auto
  show ?thesis
  proof (cases "parseExpr (drop c0 s) variables")
    case (Inl err)
    with IH [OF shorter1, of variables] Some show ?thesis
      by (simp add: parseBinaryExpr.simps [of s variables] inv_Inl)
  next
    case r1': (Inr r1)
    obtain n L v1 where r1: "r1 = (n, L, v1)" by (cases r1) auto
    from IH [OF shorter1, of variables] r1' r1
    have i1: "parse_inv (drop c0 s) variables (Inr (n, L, v1))" by simp
    from inv_InrD [OF i1] have le1: "reg_le variables v1" and ln: "n \<le> length s - c0" by auto
    show ?thesis
    proof (cases "n = 0")
      case True
      with Some r1' r1 le1 show ?thesis
        by (simp add: parseBinaryExpr.simps [of s variables] inv_fail)
    next
      case n: False
      with inv_InrD [OF i1] obtain l where l: "L = Some l" "wf_expr (length v1) l" by auto
      obtain op c1 where po: "parseOp (drop (c0 + n) s) = (op, c1)"
        by (cases "parseOp (drop (c0 + n) s)") auto
      from parseOp_le [OF po] have lc1: "c1 \<le> length s - (c0 + n)" by simp
      from c0 have shorter2: "length (drop (c0 + n + c1) s) < length s" by auto
      show ?thesis
      proof (cases "parseExpr (drop (c0 + n + c1) s) v1")
        case (Inl err)
        with IH [OF shorter2, of v1] Some r1' r1 n po show ?thesis
          by (simp add: parseBinaryExpr.simps [of s variables] inv_Inl)
      next
        case r2': (Inr r2)
        obtain m R v2 where r2: "r2 = (m, R, v2)" by (cases r2) auto
        from IH [OF shorter2, of v1] r2' r2
        have i2: "parse_inv (drop (c0 + n + c1) s) v1 (Inr (m, R, v2))" by simp
        from inv_InrD [OF i2] le1 have le2: "reg_le variables v2" "reg_le v1 v2"
          and lm: "m \<le> length s - (c0 + n + c1)"
          by (auto intro: reg_le_trans)
        show ?thesis
        proof (cases "m = 0")
          case True
          with Some r1' r1 n po r2' r2 le2 show ?thesis
            by (simp add: parseBinaryExpr.simps [of s variables] inv_fail)
        next
          case m: False
          with inv_InrD [OF i2] obtain r where r: "R = Some r" "wf_expr (length v2) r" by auto
          show ?thesis
          proof (cases "closeParen (drop (c0 + n + c1 + m) s)")
            case None
            with Some r1' r1 n po r2' r2 m le2 show ?thesis
              by (simp add: parseBinaryExpr.simps [of s variables] inv_fail)
          next
            case cp: (Some c2)
            from closeParen_bounds [OF cp] have lc2: "c2 \<le> length s - (c0 + n + c1 + m)"
              by simp
            show ?thesis
            proof (cases "binaryOp op l r")
              case None
              with cp Some r1' r1 n po r2' r2 m le2 l r show ?thesis
                by (simp add: parseBinaryExpr.simps [of s variables] inv_fail)
            next
              case b: (Some b)
              from l(2) le2(2) have "wf_expr (length v2) l"
                by (auto intro: wf_expr_mono reg_le_length)
              with b r have wfb: "wf_expr (length v2) b"
                by (auto intro: binaryOp_wf)
              from c0 ln lc1 lm lc2 n m
              have "c0 + n + c1 + m + c2 \<le> length s" "c0 + n + c1 + m + c2 \<noteq> 0"
                by arith+
              with wfb le2
              have "parse_inv s variables (Inr (c0 + n + c1 + m + c2, Some b, v2))"
                by (auto intro!: inv_ok)
              with b cp Some r1' r1 n po r2' r2 m l r show ?thesis
                by (simp add: parseBinaryExpr.simps [of s variables])
            qed
          qed
        qed
      qed
    qed
  qed
qed

lemma parseExpr_inv: "parse_inv s variables (parseExpr s variables)"
proof (induction "length s" arbitrary: s variables rule: less_induct)
  case less
  have IH: "parse_inv s' v (parseExpr s' v)" if "length s' < length (drop (skipWS s) s)" for s' v
    using less [of s' v] that by simp
  show ?case
    by (rule parseExpr_inv_step) (rule parseNot_inv_step parseBinaryExpr_inv_step, rule IH, assumption)+
qed

lemma parseNot_inv: "parse_inv s variables (parseNot s variables)"
  by (rule parseNot_inv_step) (rule parseExpr_inv)

lemma parseBinaryExpr_inv: "parse_inv s variables (parseBinaryExpr s variables)"
  by (rule parseBinaryExpr_inv_step) (rule parseExpr_inv)

lemma parseTopLevelExpr_inv:
  assumes "parseTopLevelExpr s variables = Inr (ok, p, variables')"
  shows "reg_le variables variables' \<and> (ok \<longrightarrow> (\<exists>E. p = Some E \<and> wf_expr (length variables') E))"
proof (cases "parseExpr s variables")
  case (Inl err)
  with assms show ?thesis by (simp add: parseTopLevelExpr_def)
next
  case r1': (Inr r1)
  obtain n p1 v1 where r1: "r1 = (n, p1, v1)" by (cases r1) auto
  from parseExpr_inv [of s variables] r1' r1 have "parse_inv s variables (Inr (n, p1, v1))"
    by simp
  note i1 = inv_InrD [OF this]
  show ?thesis
  proof (cases "n \<noteq> 0 \<and> drop (skipWS (drop n s)) (drop n s) = []")
    case True
    with assms r1' r1 i1 show ?thesis
      by (auto simp: parseTopLevelExpr_def Let_def simp del: drop_eq_Nil drop_eq_Nil2)
  next
    case False
    show ?thesis
    proof (cases "parseExpr (''('' @ s @ '')'') v1")
      case (Inl err)
      with assms r1' r1 False show ?thesis
        by (auto simp: parseTopLevelExpr_def Let_def simp del: drop_eq_Nil drop_eq_Nil2)
    next
      case r2': (Inr r2)
      obtain n2 p2 v2 where r2: "r2 = (n2, p2, v2)" by (cases r2) auto
      from parseExpr_inv [of "''('' @ s @ '')''" v1] r2' r2
      have "parse_inv (''('' @ s @ '')'') v1 (Inr (n2, p2, v2))"
        by simp
      note i2 = inv_InrD [OF this]
      from i1 i2 have "reg_le variables v2" by (auto intro: reg_le_trans)
      with assms r1' r1 False r2' r2 i2 show ?thesis
        by (auto simp: parseTopLevelExpr_def Let_def simp del: drop_eq_Nil drop_eq_Nil2
            split: if_splits)
    qed
  qed
qed

lemma sentinel:
  "parse_inv s v r \<Longrightarrow> r = Inr (n, p, v') \<longrightarrow> (0 < n \<longleftrightarrow> p \<noteq> None) \<and> n \<le> length s"
  by (auto simp: parse_inv_def)

text \<open>
  Claim C8. Each of \<^verbatim>\<open>parseTrue\<close>, \<^verbatim>\<open>parseFalse\<close>, \<^verbatim>\<open>parseVar\<close>, \<^verbatim>\<open>parseNot\<close>,
  \<^verbatim>\<open>parseBinaryExpr\<close> and \<^verbatim>\<open>parseExpr\<close> returns a number of characters that is within the
  string, and that number is greater than 0 exactly when the function has produced a
  node: a success never has length 0, and the length 0 never comes with a node.
\<close>

theorem parse_consumes:
  "(parseTrue s = (n, p) \<longrightarrow> (0 < n \<longleftrightarrow> p \<noteq> None) \<and> n \<le> length s)
   \<and> (parseFalse s = (n, p) \<longrightarrow> (0 < n \<longleftrightarrow> p \<noteq> None) \<and> n \<le> length s)
   \<and> (parseVar s variables = Inr (n, p, variables') \<longrightarrow>
        (0 < n \<longleftrightarrow> p \<noteq> None) \<and> n \<le> length s)
   \<and> (parseNot s variables = Inr (n, p, variables') \<longrightarrow>
        (0 < n \<longleftrightarrow> p \<noteq> None) \<and> n \<le> length s)
   \<and> (parseBinaryExpr s variables = Inr (n, p, variables') \<longrightarrow>
        (0 < n \<longleftrightarrow> p \<noteq> None) \<and> n \<le> length s)
   \<and> (parseExpr s variables = Inr (n, p, variables') \<longrightarrow>
        (0 < n \<longleftrightarrow> p \<noteq> None) \<and> n \<le> length s)"
proof -
  have t: "parseTrue s = (n, p) \<longrightarrow> (0 < n \<longleftrightarrow> p \<noteq> None) \<and> n \<le> length s"
    using parseTrue_inv [of s n p] by auto
  have f: "parseFalse s = (n, p) \<longrightarrow> (0 < n \<longleftrightarrow> p \<noteq> None) \<and> n \<le> length s"
    using parseFalse_inv [of s n p] by auto
  show ?thesis
    by (intro conjI t f sentinel [OF parseVar_inv] sentinel [OF parseNot_inv]
        sentinel [OF parseBinaryExpr_inv] sentinel [OF parseExpr_inv])
qed

theorem parse_consumes_witness:
  "parseTrue ''true'' = (4, Some TrueE) \<and> ((0 < (4::nat)) = (Some TrueE \<noteq> None))
   \<and> parseFalse ''F)'' = (1, Some FalseE) \<and> ((0 < (1::nat)) = (Some FalseE \<noteq> None))
   \<and> parseVar ''[X]'' [] = Inr (3, Some (Var 0), [''X''])
   \<and> ((0 < (3::nat)) = (Some (Var 0) \<noteq> None))
   \<and> parseNot ''!T'' [] = Inr (2, Some (NotE TrueE), [])
   \<and> ((0 < (2::nat)) = (Some (NotE TrueE) \<noteq> None))
   \<and> parseBinaryExpr ''(T&F)'' [] = Inr (5, Some (And TrueE FalseE), [])
   \<and> ((0 < (5::nat)) = (Some (And TrueE FalseE) \<noteq> None))
   \<and> parseExpr '' T'' [] = Inr (2, Some TrueE, [])
   \<and> ((0 < (2::nat)) = (Some TrueE \<noteq> None))
   \<and> parseExpr ''x'' [] = Inr (0, None, [])
   \<and> ((0 < (0::nat)) = ((None :: Expr option) \<noteq> None))"
proof -
  have 1: "parseTrue ''true'' = (4, Some TrueE)" by code_simp
  have 2: "parseFalse ''F)'' = (1, Some FalseE)" by code_simp
  have 3: "parseVar ''[X]'' [] = Inr (3, Some (Var 0), [''X''])" by code_simp
  have 4: "parseNot ''!T'' [] = Inr (2, Some (NotE TrueE), [])" by code_simp
  have 5: "parseBinaryExpr ''(T&F)'' [] = Inr (5, Some (And TrueE FalseE), [])" by code_simp
  have 6: "parseExpr '' T'' [] = Inr (2, Some TrueE, [])" by code_simp
  have 7: "parseExpr ''x'' [] = Inr (0, None, [])" by code_simp
  note w = parse_consumes [of "''true''" 4 "Some TrueE", THEN conjunct1, rule_format, OF 1]
    parse_consumes [of "''F)''" 1 "Some FalseE", THEN conjunct2, THEN conjunct1,
      rule_format, OF 2]
    parse_consumes [of "''[X]''" 3 "Some (Var 0)" "[]" "[''X'']", THEN conjunct2,
      THEN conjunct2, THEN conjunct1, rule_format, OF 3]
    parse_consumes [of "''!T''" 2 "Some (NotE TrueE)" "[]" "[]", THEN conjunct2,
      THEN conjunct2, THEN conjunct2, THEN conjunct1, rule_format, OF 4]
    parse_consumes [of "''(T&F)''" 5 "Some (And TrueE FalseE)" "[]" "[]", THEN conjunct2,
      THEN conjunct2, THEN conjunct2, THEN conjunct2, THEN conjunct1, rule_format, OF 5]
    parse_consumes [of "'' T''" 2 "Some TrueE" "[]" "[]", THEN conjunct2,
      THEN conjunct2, THEN conjunct2, THEN conjunct2, THEN conjunct2, rule_format, OF 6]
    parse_consumes [of "''x''" 0 None "[]" "[]", THEN conjunct2,
      THEN conjunct2, THEN conjunct2, THEN conjunct2, THEN conjunct2, rule_format, OF 7]
  show ?thesis
    using 1 2 3 4 5 6 7 w by simp
qed

section \<open>The values of the evaluator\<close>

text \<open>
  Claim C10. The tree that the parser builds for a line, from a registry of at most 32
  names and for words of at least 32 bits, only has shifts below the width of the word,
  and its value at every assignment is the word 0 or the word 1. For trees with such
  shifts the XOR with 1 is therefore the negation: \<open>Not\<close> yields 1 exactly when its
  operand yields 0, and \<open>Implies\<close> yields 0 exactly when its left operand does not yield 0
  and its right operand yields 0.
\<close>

theorem eval_zero_or_one:
  fixes x :: "'a::len word"
  shows "(parseTopLevelExpr line variables = Inr (True, Some P, variables')
          \<and> length variables \<le> 32 \<and> 32 \<le> LENGTH('a) \<longrightarrow>
            wf_expr LENGTH('a) P \<and> (eval P x = 0 \<or> eval P x = 1))
       \<and> (wf_expr LENGTH('a) E \<and> wf_expr LENGTH('a) R \<longrightarrow>
            (eval E x = 0 \<or> eval E x = 1)
            \<and> eval (NotE E) x = (if eval E x = 0 then 1 else 0)
            \<and> eval (Implies E R) x = (if eval E x \<noteq> 0 \<and> eval R x = 0 then 0 else 1))"
proof -
  have "wf_expr LENGTH('a) P"
    if "parseTopLevelExpr line variables = Inr (True, Some P, variables')"
      "length variables \<le> 32" "32 \<le> LENGTH('a)"
  proof -
    from parseTopLevelExpr_inv [OF that(1)]
    have "reg_le variables variables'" "wf_expr (length variables') P" by auto
    with that(2,3) show ?thesis
      by (auto simp: reg_le_def intro: wf_expr_mono)
  qed
  moreover have "eval (NotE E) x = (if eval E x = 0 then 1 else 0)"
    using eval_bit [of E x] by auto
  moreover have "eval (Implies E R) x = (if eval E x \<noteq> 0 \<and> eval R x = 0 then 0 else 1)"
    using eval_bit [of E x] eval_bit [of R x] by auto
  ultimately show ?thesis
    using eval_bit [of P x] eval_bit [of E x] by blast
qed

theorem eval_zero_or_one_witness:
  "(parseTopLevelExpr ''[A] => not [B]'' [] =
      Inr (True, Some (Implies (Var 0) (NotE (Var 1))), [''A'', ''B''])
    \<and> length ([] :: string list) \<le> 32 \<and> 32 \<le> LENGTH(32))
   \<and> wf_expr LENGTH(32) (Implies (Var 0) (NotE (Var 1)))
   \<and> (eval (Implies (Var 0) (NotE (Var 1))) (3 :: 32 word) = 0
        \<or> eval (Implies (Var 0) (NotE (Var 1))) (3 :: 32 word) = 1)
   \<and> (wf_expr LENGTH(32) (Var 0) \<and> wf_expr LENGTH(32) (NotE (Var 1)))
   \<and> eval (NotE (Var 0)) (3 :: 32 word) = (if eval (Var 0) (3 :: 32 word) = 0 then 1 else 0)
   \<and> eval (Implies (Var 0) (NotE (Var 1))) (3 :: 32 word) =
       (if eval (Var 0) (3 :: 32 word) \<noteq> 0 \<and> eval (NotE (Var 1)) (3 :: 32 word) = 0
        then 0 else 1)"
proof -
  have 1: "parseTopLevelExpr ''[A] => not [B]'' [] =
      Inr (True, Some (Implies (Var 0) (NotE (Var 1))), [''A'', ''B''])
    \<and> length ([] :: string list) \<le> 32 \<and> 32 \<le> LENGTH(32)"
    by code_simp
  have 2: "wf_expr LENGTH(32) (Var 0) \<and> wf_expr LENGTH(32) (NotE (Var 1))"
    by simp
  show ?thesis
    using 1 2
      eval_zero_or_one [of "''[A] => not [B]''" "[]" "Implies (Var 0) (NotE (Var 1))"
        "[''A'', ''B'']" "3 :: 32 word" "Var 0" "NotE (Var 1)"]
    by blast
qed

section \<open>Double negation\<close>

lemma parseVar_X:
  "resolve variables ''X'' = Inr (i, variables') \<Longrightarrow>
   parseVar ''[X]'' variables = Inr (3, Some (Var i), variables')"
  by (simp add: parseVar_def deref_def varName_def isspace_def)

lemma parseExpr_X:
  "resolve variables ''X'' = Inr (i, variables') \<Longrightarrow>
   parseExpr ''[X]'' variables = Inr (3, Some (Var i), variables')"
  by (simp add: parseExpr.simps [of "''[X]''"] parseVar_X parseTrue_def parseFalse_def
      parseString_def deref_def isspace_def)

lemma parseExpr_sp_X:
  "resolve variables ''X'' = Inr (i, variables') \<Longrightarrow>
   parseExpr '' [X]'' variables = Inr (4, Some (Var i), variables')"
  by (simp add: parseExpr.simps [of "'' [X]''"] parseVar_X parseTrue_def parseFalse_def
      parseString_def deref_def isspace_def)

lemma parseNot_X:
  "resolve variables ''X'' = Inr (i, variables') \<Longrightarrow>
   parseNot ''not [X]'' variables = Inr (7, Some (NotE (Var i)), variables')"
  by (simp add: parseNot.simps [of "''not [X]''"] parseOneString_def parseString_def
      parseExpr_sp_X)

lemma parseExpr_sp_not_X:
  "resolve variables ''X'' = Inr (i, variables') \<Longrightarrow>
   parseExpr '' not [X]'' variables = Inr (8, Some (NotE (Var i)), variables')"
  by (simp add: parseExpr.simps [of "'' not [X]''"] parseNot_X parseVar_def parseTrue_def
      parseFalse_def parseString_def deref_def isspace_def)

lemma parseNot_not_X:
  "resolve variables ''X'' = Inr (i, variables') \<Longrightarrow>
   parseNot ''not not [X]'' variables = Inr (11, Some (NotE (NotE (Var i))), variables')"
  by (simp add: parseNot.simps [of "''not not [X]''"] parseOneString_def parseString_def
      parseExpr_sp_not_X)

lemma parseExpr_not_not_X:
  "resolve variables ''X'' = Inr (i, variables') \<Longrightarrow>
   parseExpr ''not not [X]'' variables = Inr (11, Some (NotE (NotE (Var i))), variables')"
  by (simp add: parseExpr.simps [of "''not not [X]''"] parseNot_not_X parseVar_def
      parseTrue_def parseFalse_def parseString_def deref_def isspace_def)

text \<open>
  Claim C9. Whenever the name \<open>X\<close> can be resolved, to the index \<open>i\<close>, the line \<open>[X]\<close>
  parses to the variable \<open>i\<close> and the line \<open>not not [X]\<close>, parsed next, to its double
  negation; at every assignment the two trees have the same value, the truth value of bit
  \<open>i\<close> of the assignment.
\<close>

theorem double_negation_round_trip:
  fixes x :: "'a::len word"
  assumes "resolve variables ''X'' = Inr (i, variables')"
  shows "parseTopLevelExpr ''[X]'' variables = Inr (True, Some (Var i), variables')
       \<and> parseTopLevelExpr ''not not [X]'' variables' =
           Inr (True, Some (NotE (NotE (Var i))), variables')
       \<and> eval (NotE (NotE (Var i))) x = eval (Var i) x
       \<and> eval (Var i) x = of_bool_word (bit x i)"
proof -
  have "eval (NotE (NotE (Var i))) x = eval (Var i) x"
    using eval_bit [of "Var i" x] by auto
  then show ?thesis
    using assms resolve_again [OF assms]
    by (simp add: parseTopLevelExpr_def parseExpr_X parseExpr_not_not_X var_bit)
qed

theorem double_negation_round_trip_witness:
  "resolve [] ''X'' = Inr (0, [''X''])
   \<and> parseTopLevelExpr ''[X]'' [] = Inr (True, Some (Var 0), [''X''])
   \<and> parseTopLevelExpr ''not not [X]'' [''X''] = Inr (True, Some (NotE (NotE (Var 0))), [''X''])
   \<and> eval (NotE (NotE (Var 0))) (1 :: 32 word) = eval (Var 0) (1 :: 32 word)
   \<and> eval (Var 0) (1 :: 32 word) = of_bool_word (bit (1 :: 32 word) 0)"
proof -
  have h: "resolve [] ''X'' = Inr (0, [''X''])"
    by code_simp
  show ?thesis
    using h double_negation_round_trip [OF h, of "1 :: 32 word"] by blast
qed

section \<open>The order of the operands\<close>

lemma parseBinaryExpr_complete:
  assumes "openParen s = Some c0"
    and "parseExpr (drop c0 s) variables = Inr (n, Some l, v1)" and "n \<noteq> 0"
    and "parseOp (drop (c0 + n) s) = (op, c1)"
    and "parseExpr (drop (c0 + n + c1) s) v1 = Inr (m, Some r, v2)" and "m \<noteq> 0"
    and "closeParen (drop (c0 + n + c1 + m) s) = Some c2"
  shows "parseBinaryExpr s variables =
           (case binaryOp op l r of
              Some b \<Rightarrow> Inr (c0 + n + c1 + m + c2, Some b, v2)
            | None \<Rightarrow> Inr (0, None, v2))"
  using assms by (simp add: parseBinaryExpr.simps [of s variables])

text \<open>
  Claim C7. When both operands of a binary expression parse and the closing parenthesis
  follows, the node is the one that the chain of comparisons picks for the operator
  string, built from the left operand \<open>l\<close> and the right operand \<open>r\<close> of the text. For
  \<open>if\<close> and \<open><=\<close> it is \<open>Implies\<close> with the right operand first and the left operand
  second, the node that \<open>=>\<close> builds from the operands in the other order; for each of the
  other eleven operator strings the operands are in the order of the text.
\<close>

theorem binary_operand_order:
  assumes "openParen s = Some c0"
    and "parseExpr (drop c0 s) variables = Inr (n, Some l, v1)" and "n \<noteq> 0"
    and "parseOp (drop (c0 + n) s) = (op, c1)"
    and "parseExpr (drop (c0 + n + c1) s) v1 = Inr (m, Some r, v2)" and "m \<noteq> 0"
    and "closeParen (drop (c0 + n + c1 + m) s) = Some c2"
  shows "parseBinaryExpr s variables =
           (case binaryOp op l r of
              Some b \<Rightarrow> Inr (c0 + n + c1 + m + c2, Some b, v2)
            | None \<Rightarrow> Inr (0, None, v2))
       \<and> binaryOp ''if'' l r = Some (Implies r l)
       \<and> binaryOp ''<='' l r = Some (Implies r l)
       \<and> binaryOp ''=>'' r l = Some (Implies r l)
       \<and> binaryOp ''=>'' l r = Some (Implies l r)
       \<and> binaryOp ''then'' l r = Some (Implies l r)
       \<and> binaryOp ''implies'' l r = Some (Implies l r)
       \<and> binaryOp ''and'' l r = Some (And l r)
       \<and> binaryOp ''&'' l r = Some (And l r)
       \<and> binaryOp ''or'' l r = Some (Or l r)
       \<and> binaryOp ''|'' l r = Some (Or l r)
       \<and> binaryOp ''xor'' l r = Some (Xor l r)
       \<and> binaryOp ''^'' l r = Some (Xor l r)
       \<and> binaryOp ''iff'' l r = Some (Iff l r)
       \<and> binaryOp ''<=>'' l r = Some (Iff l r)"
  using parseBinaryExpr_complete [OF assms] by (simp add: binaryOp_def)

theorem binary_operand_order_witness:
  "openParen ''([A] if [B])'' = Some 1
   \<and> parseExpr (drop 1 ''([A] if [B])'') [''A'', ''B''] = Inr (3, Some (Var 0), [''A'', ''B''])
   \<and> (3::nat) \<noteq> 0
   \<and> parseOp (drop (1 + 3) ''([A] if [B])'') = (''if'', 4)
   \<and> parseExpr (drop (1 + 3 + 4) ''([A] if [B])'') [''A'', ''B'']
        = Inr (3, Some (Var 1), [''A'', ''B''])
   \<and> closeParen (drop (1 + 3 + 4 + 3) ''([A] if [B])'') = Some 1
   \<and> parseBinaryExpr ''([A] if [B])'' [''A'', ''B'']
        = Inr (12, Some (Implies (Var 1) (Var 0)), [''A'', ''B''])
   \<and> parseBinaryExpr ''([B] => [A])'' [''A'', ''B'']
        = Inr (12, Some (Implies (Var 1) (Var 0)), [''A'', ''B''])"
proof -
  have 1: "openParen ''([A] if [B])'' = Some 1" by code_simp
  have 2: "parseExpr (drop 1 ''([A] if [B])'') [''A'', ''B'']
             = Inr (3, Some (Var 0), [''A'', ''B''])" by code_simp
  have 3: "(3::nat) \<noteq> 0" by simp
  have 4: "parseOp (drop (1 + 3) ''([A] if [B])'') = (''if'', 4)" by code_simp
  have 5: "parseExpr (drop (1 + 3 + 4) ''([A] if [B])'') [''A'', ''B'']
             = Inr (3, Some (Var 1), [''A'', ''B''])" by code_simp
  have 6: "closeParen (drop (1 + 3 + 4 + 3) ''([A] if [B])'') = Some 1" by code_simp
  have 7: "parseBinaryExpr ''([B] => [A])'' [''A'', ''B'']
             = Inr (12, Some (Implies (Var 1) (Var 0)), [''A'', ''B''])" by code_simp
  from binary_operand_order [OF 1 2 3 4 5 3 6]
  have "parseBinaryExpr ''([A] if [B])'' [''A'', ''B'']
          = Inr (12, Some (Implies (Var 1) (Var 0)), [''A'', ''B''])"
    by simp
  with 1 2 3 4 5 6 7 show ?thesis by simp
qed

section \<open>The two attempts of the top-level parse\<close>

lemma blank_iff: "drop (skipWS e) e = [] \<longleftrightarrow> blank e"
  by (induction e) (auto simp: blank_def)





lemma parseTopLevelExpr_blank:
  "parseTopLevelExpr s variables =
     (case parseExpr s variables of
        Inl err \<Rightarrow> Inl err
      | Inr (n, p, variables1) \<Rightarrow>
          if n \<noteq> 0 \<and> blank (drop n s) then Inr (True, p, variables1)
          else
            (case parseExpr (''('' @ s @ '')'') variables1 of
               Inl err \<Rightarrow> Inl err
             | Inr (n2, p2, variables2) \<Rightarrow>
                 if n2 \<noteq> 0 \<and> blank (drop n2 (''('' @ s @ '')''))
                 then Inr (True, case p2 of None \<Rightarrow> p | Some _ \<Rightarrow> p2, variables2)
                 else Inr (False, case p2 of None \<Rightarrow> p | Some _ \<Rightarrow> p2, variables2)))"
  unfolding parseTopLevelExpr_def Let_def blank_iff ..





lemma readLines_skipped:
  "skipped line \<Longrightarrow>
   readLines (line # rest) linenum propositions variables =
     readLines rest (linenum + 1) propositions variables"
  by (auto simp: skipped_def)

lemma readLines_not_skipped:
  "\<not> skipped line \<Longrightarrow>
   readLines (line # rest) linenum propositions variables =
     (case parseTopLevelExpr line variables of
        Inl err \<Rightarrow> Inl err
      | Inr (ok, p, variables') \<Rightarrow>
          if \<not> ok then Inr (Inl (SyntaxErrorLine (linenum + 1), 1))
          else
            (case p of
               None \<Rightarrow> Inl NullOperand
             | Some e \<Rightarrow> readLines rest (linenum + 1) (propositions @ [e]) variables'))"
  by (auto simp: skipped_def)





section \<open>The enumeration\<close>

lemma axiomLoop_char:
  "i \<le> length propositions - 1 \<Longrightarrow>
   axiomLoop propositions x i evs = (j, evs') \<Longrightarrow>
   i \<le> j \<and> j \<le> length propositions - 1
   \<and> (\<forall>k. i \<le> k \<and> k < j \<longrightarrow> eval (propositions ! k) x \<noteq> 0)
   \<and> (j < length propositions - 1 \<longrightarrow> eval (propositions ! j) x = 0)
   \<and> evs' = evs @ [i..<(if j < length propositions - 1 then Suc j else j)]"
proof (induction propositions x i evs rule: axiomLoop.induct)
  case (1 propositions x i evs)
  show ?case
  proof (cases "i < length propositions - 1")
    case False
    with "1.prems" show ?thesis
      by (auto simp: axiomLoop.simps [of propositions x i evs])
  next
    case True
    show ?thesis
    proof (cases "eval (propositions ! i) x = 0")
      case z: True
      with True "1.prems" show ?thesis
        by (auto simp: axiomLoop.simps [of propositions x i evs])
    next
      case nz: False
      with True "1.prems"
      have r: "axiomLoop propositions x (Suc i) (evs @ [i]) = (j, evs')"
        by (simp add: axiomLoop.simps [of propositions x i evs])
      from True have "Suc i \<le> length propositions - 1" by simp
      from "1.IH" [OF True nz this r]
      have ih: "Suc i \<le> j" "j \<le> length propositions - 1"
        "\<forall>k. Suc i \<le> k \<and> k < j \<longrightarrow> eval (propositions ! k) x \<noteq> 0"
        "j < length propositions - 1 \<longrightarrow> eval (propositions ! j) x = 0"
        "evs' = (evs @ [i]) @ [Suc i..<(if j < length propositions - 1 then Suc j else j)]"
        by auto
      have "\<forall>k. i \<le> k \<and> k < j \<longrightarrow> eval (propositions ! k) x \<noteq> 0"
      proof (intro allI impI)
        fix k assume "i \<le> k \<and> k < j"
        then have "k = i \<or> (Suc i \<le> k \<and> k < j)" by auto
        with nz ih(3) show "eval (propositions ! k) x \<noteq> 0" by auto
      qed
      moreover from ih(1,5) have "evs' = evs @ [i..<(if j < length propositions - 1 then Suc j else j)]"
        by (auto simp: upt_conv_Cons)
      ultimately show ?thesis using ih by auto
    qed
  qed
qed

lemma models_iff:
  "models propositions x \<longleftrightarrow> (\<forall>k<length propositions - 1. eval (propositions ! k) x \<noteq> 0)"
  by (auto simp: models_def list_all_length nth_butlast)

lemma axiomLoop_models:
  assumes "axiomLoop propositions x 0 [] = (i, evs)"
  shows "(i = length propositions - 1 \<longleftrightarrow> models propositions x)
       \<and> i \<le> length propositions - 1
       \<and> evs = [0..<(if i < length propositions - 1 then Suc i else i)]"
proof -
  from axiomLoop_char [OF _ assms]
  have c: "i \<le> length propositions - 1"
    "\<forall>k. k < i \<longrightarrow> eval (propositions ! k) x \<noteq> 0"
    "i < length propositions - 1 \<longrightarrow> eval (propositions ! i) x = 0"
    "evs = [0..<(if i < length propositions - 1 then Suc i else i)]"
    by auto
  have "i = length propositions - 1 \<longleftrightarrow> models propositions x"
  proof
    assume "i = length propositions - 1"
    with c(2) show "models propositions x" by (simp add: models_iff)
  next
    assume m: "models propositions x"
    show "i = length propositions - 1"
    proof (rule ccontr)
      assume "i \<noteq> length propositions - 1"
      with c(1) have "i < length propositions - 1" by simp
      with c(3) m show False by (auto simp: models_iff)
    qed
  qed
  with c show ?thesis by simp
qed

lemma visit_fst: "fst (visit propositions x) = x"
  by (simp add: visit_def split: prod.splits)

lemma visit_theorem:
  "length propositions - 1 \<in> set (snd (visit propositions x)) \<longleftrightarrow> models propositions x"
proof -
  obtain i evs where a: "axiomLoop propositions x 0 [] = (i, evs)"
    by (cases "axiomLoop propositions x 0 []") auto
  from axiomLoop_models [OF a] a show ?thesis
    by (auto simp: visit_def)
qed

lemma enumerate_step:
  "enumerate propositions xmax x axiomsConsistent trace =
     (if x \<le> xmax then
        (if cex propositions x
           then Some (Counterexample x, trace @ [visit propositions x])
         else enumerate propositions xmax (x + 1)
                (axiomsConsistent \<or> models propositions x) (trace @ [visit propositions x]))
      else Some (Finished axiomsConsistent, trace))"
proof -
  obtain i evs where a: "axiomLoop propositions x 0 [] = (i, evs)"
    by (cases "axiomLoop propositions x 0 []") auto
  note m = axiomLoop_models [OF a]
  show ?thesis
  proof (cases "i = length propositions - 1")
    case True
    with m have "models propositions x" by simp
    with True a show ?thesis
      by (subst enumerate.simps) (simp add: cex_def visit_def)
  next
    case False
    with m have "\<not> models propositions x" by simp
    with False a show ?thesis
      by (subst enumerate.simps) (simp add: cex_def visit_def)
  qed
qed

lemma unat_succ:
  "unat (x :: 'a::len word) < unat (y :: 'a word) \<Longrightarrow> unat (x + 1) = Suc (unat x)"
  by (metis ab_left_minus add.commute add_left_cancel linorder_not_le
    unatSuc word_less_nat_alt word_order.extremum)

lemma unat_succ_max:
  fixes x xmax :: "'a::len word"
  assumes "xmax \<noteq> - 1" "unat x \<le> unat xmax"
  shows "unat (x + 1) = Suc (unat x)"
proof -
  from assms(1) have "xmax < - 1"
    by (simp add: word_order.not_eq_extremum)
  then have "unat xmax < unat (- 1 :: 'a word)"
    by (simp add: word_less_nat_alt)
  with assms(2) have "unat x < unat (- 1 :: 'a word)" by simp
  then show ?thesis by (rule unat_succ)
qed

lemma map_upt_shift: "map f [0..<Suc d] = f 0 # map (\<lambda>k. f (Suc k)) [0..<d]"
  by (simp add: map_upt_Suc del: upt_Suc)

lemma enumerate_finds:
  fixes x c xmax :: "'a::len word"
  assumes "unat x + d = unat c" "c \<le> xmax" "cex propositions c"
    "\<forall>k<d. \<not> cex propositions (x + of_nat k)"
  shows "enumerate propositions xmax x axiomsConsistent trace =
           Some (Counterexample c,
                 trace @ map (\<lambda>k. visit propositions (x + of_nat k)) [0..<Suc d])"
  using assms
proof (induction d arbitrary: x axiomsConsistent trace)
  case 0
  then have "x = c" by (simp add: word_unat_eq_iff)
  with 0 show ?case
    by (subst enumerate_step) simp
next
  case (Suc d)
  from Suc.prems(1) have lt: "unat x < unat c" by simp
  with Suc.prems(2) have le: "x \<le> xmax"
    by (simp add: word_le_nat_alt)
  from Suc.prems(4) [rule_format, of 0] have nc: "\<not> cex propositions x"
    by simp
  from unat_succ [OF lt] Suc.prems(1) have 1: "unat (x + 1) + d = unat c" by simp
  have 2: "\<forall>k<d. \<not> cex propositions (x + 1 + of_nat k)"
  proof (intro allI impI)
    fix k assume "k < d"
    with Suc.prems(4) [rule_format, of "Suc k"]
    show "\<not> cex propositions (x + 1 + of_nat k)"
      by (simp add: add.assoc)
  qed
  have sh: "map (\<lambda>k. visit propositions (x + of_nat k)) [0..<Suc (Suc d)] =
        visit propositions x # map (\<lambda>k. visit propositions (x + 1 + of_nat k)) [0..<Suc d]"
    by (subst map_upt_shift) (simp add: add.assoc del: upt_Suc)
  show ?case
    apply (subst enumerate_step)
    apply (simp only: le nc if_True if_False)
    apply (subst Suc.IH [OF 1 Suc.prems(2,3) 2])
    apply (simp only: sh append_assoc append_Cons append_Nil)
    done
qed

lemma enumerate_finishes:
  fixes x xmax :: "'a::len word"
  assumes "unat x + d = Suc (unat xmax)" "xmax \<noteq> - 1"
    "\<forall>k<d. \<not> cex propositions (x + of_nat k)"
  shows "enumerate propositions xmax x axiomsConsistent trace =
           Some (Finished (axiomsConsistent \<or> (\<exists>k<d. models propositions (x + of_nat k))),
                 trace @ map (\<lambda>k. visit propositions (x + of_nat k)) [0..<d])"
  using assms
proof (induction d arbitrary: x axiomsConsistent trace)
  case 0
  then have "\<not> x \<le> xmax" by (simp add: word_le_nat_alt)
  then show ?case
    by (subst enumerate_step) simp
next
  case (Suc d)
  from Suc.prems(1) have le': "unat x \<le> unat xmax" by simp
  then have le: "x \<le> xmax"
    by (simp add: word_le_nat_alt)
  from Suc.prems(3) [rule_format, of 0] have nc: "\<not> cex propositions x"
    by simp
  from unat_succ_max [OF Suc.prems(2) le'] Suc.prems(1)
  have 1: "unat (x + 1) + d = Suc (unat xmax)" by simp
  have 2: "\<forall>k<d. \<not> cex propositions (x + 1 + of_nat k)"
  proof (intro allI impI)
    fix k assume "k < d"
    with Suc.prems(3) [rule_format, of "Suc k"]
    show "\<not> cex propositions (x + 1 + of_nat k)"
      by (simp add: add.assoc)
  qed
  have sh: "map (\<lambda>k. visit propositions (x + of_nat k)) [0..<Suc d] =
        visit propositions x # map (\<lambda>k. visit propositions (x + 1 + of_nat k)) [0..<d]"
    by (subst map_upt_shift) (simp add: add.assoc del: upt_Suc)
  have ex: "(models propositions x \<or> (\<exists>k<d. models propositions (x + 1 + of_nat k)))
        \<longleftrightarrow> (\<exists>k<Suc d. models propositions (x + of_nat k))"
  proof
    assume "models propositions x \<or> (\<exists>k<d. models propositions (x + 1 + of_nat k))"
    then show "\<exists>k<Suc d. models propositions (x + of_nat k)"
    proof
      assume "models propositions x"
      then have "models propositions (x + of_nat 0)" by simp
      then show ?thesis by blast
    next
      assume "\<exists>k<d. models propositions (x + 1 + of_nat k)"
      then obtain k where "Suc k < Suc d" "models propositions (x + of_nat (Suc k))"
        by (auto simp: add.assoc)
      then show ?thesis by blast
    qed
  next
    assume "\<exists>k<Suc d. models propositions (x + of_nat k)"
    then obtain k where k: "k < Suc d" "models propositions (x + of_nat k)" by blast
    show "models propositions x \<or> (\<exists>k<d. models propositions (x + 1 + of_nat k))"
    proof (cases k)
      case 0
      with k show ?thesis by simp
    next
      case (Suc j)
      with k have "j < d" "models propositions (x + 1 + of_nat j)"
        by (simp_all add: add.assoc)
      then show ?thesis by blast
    qed
  qed
  show ?case
    apply (subst enumerate_step)
    apply (simp only: le nc if_True if_False)
    apply (subst Suc.IH [OF 1 Suc.prems(2) 2])
    apply (simp only: sh append_assoc append_Cons append_Nil disj_assoc ex)
    done
qed

lemma enumerate_returns_only_if:
  fixes xmax :: "'a::len word"
  assumes "enumerate propositions xmax x axiomsConsistent trace = Some r" "xmax = - 1"
  shows "\<exists>c :: 'a word. cex propositions c"
proof -
  have "xmax = - 1 \<longrightarrow> (\<exists>c :: 'a word. cex propositions c)"
  proof (rule enumerate.raw_induct
      [where P = "\<lambda>p (m :: 'a word) x a t r. m = - 1 \<longrightarrow> (\<exists>c :: 'a word. cex p c)"
        and xa = "((((propositions, xmax), x), axiomsConsistent), trace)" and y = r,
        unfolded prod.case], goal_cases)
    case (1 enumerate' p m x a t r)
    show ?case
    proof (intro impI)
      assume top: "m = - 1"
      show "\<exists>c :: 'a word. cex p c"
      proof (cases "cex p x")
        case True
        then show ?thesis by blast
      next
        case False
        obtain i evs where ax: "axiomLoop p x 0 [] = (i, evs)"
          by (cases "axiomLoop p x 0 []") auto
        note md = axiomLoop_models [OF ax]
        from 1(2) top ax False md
        have "\<exists>ac tr. enumerate' p m (x + 1) ac tr = Some r"
          by (auto simp: cex_def split: if_splits)
        then obtain ac tr where "enumerate' p m (x + 1) ac tr = Some r" by blast
        from 1(1) [OF this] top show ?thesis by simp
      qed
    qed
  next
    case 2
    show ?case by (rule assms(1))
  qed
  with assms(2) show ?thesis by simp
qed

lemma computeMax_Suc:
  "1 \<le> n \<Longrightarrow>
   (computeMax (Suc n) :: 'a::len word) = computeMax n OR scast (push_bit n (1 :: 32 word))"
  by (simp add: computeMax_def)

lemma bit_shifted_int:
  assumes "n \<le> 31"
  shows "bit (scast (push_bit n (1 :: 32 word)) :: 'a::len word) k \<longleftrightarrow>
     k < LENGTH('a) \<and> (k = n \<or> (n = 31 \<and> 31 \<le> k))"
proof -
  have b: "bit (push_bit n (1 :: 32 word)) j \<longleftrightarrow> j = n" if "j < 32" for j
    using that assms by (auto simp: bit_push_bit_iff bit_1_iff simp del: push_bit_of_1)
  have c: "\<not> bit (push_bit n (1 :: 32 word)) j" if "32 \<le> j" for j
    using that by (auto dest: bit_imp_le_length)
  show ?thesis
  proof (cases "k < 32")
    case True
    then show ?thesis
      using assms b [of k] by (auto simp: bit_word_scast_iff simp del: push_bit_of_1)
  next
    case False
    then show ?thesis
      using assms b [of 31] c [of k]
      by (auto simp: bit_word_scast_iff simp del: push_bit_of_1)
  qed
qed

lemma bit_computeMax:
  "n \<le> 32 \<Longrightarrow>
   bit (computeMax n :: 'a::len word) k \<longleftrightarrow>
     k < LENGTH('a) \<and> (k = 0 \<or> k < n \<or> (n = 32 \<and> 31 \<le> k))"
proof (induction n)
  case 0
  show ?case by (auto simp: computeMax_def bit_1_iff)
next
  case (Suc n)
  show ?case
  proof (cases "n = 0")
    case True
    then show ?thesis by (auto simp: computeMax_def bit_1_iff)
  next
    case False
    with Suc.prems have n: "1 \<le> n" "n \<le> 31" "n \<le> 32" by simp_all
    from Suc.IH [OF n(3)] n(1,2) show ?thesis
      by (auto simp: computeMax_Suc bit_or_iff bit_shifted_int simp del: push_bit_of_1)
  qed
qed

lemma computeMax_mask:
  "1 \<le> n \<Longrightarrow> n \<le> 31 \<Longrightarrow> (computeMax n :: 'a::len word) = mask n"
  by (rule bit_eqI) (auto simp: bit_computeMax bit_mask_iff)

lemma computeMax_0: "(computeMax 0 :: 'a::len word) = 1"
  by (simp add: computeMax_def)

lemma computeMax_32: "32 \<le> LENGTH('a) \<Longrightarrow> (computeMax 32 :: 'a::len word) = - 1"
  by (rule bit_eqI) (auto simp: bit_computeMax)

lemma computeMax_not_top:
  assumes "n < 32" "32 \<le> LENGTH('a)"
  shows "(computeMax n :: 'a::len word) \<noteq> - 1"
proof
  assume "(computeMax n :: 'a word) = - 1"
  then have "bit (computeMax n :: 'a word) 31 \<longleftrightarrow> bit (- 1 :: 'a word) 31" by simp
  with assms show False by (simp add: bit_computeMax)
qed

lemma assignments_length: "length (assignments xmax) = Suc (unat xmax)"
  by (simp add: assignments_def)

lemma assignments_nth: "k \<le> unat xmax \<Longrightarrow> assignments xmax ! k = of_nat k"
  unfolding assignments_def by (simp add: nth_map_upt del: upt_Suc)

lemma assignments_set: "set (assignments xmax) = {x. x \<le> xmax}"
proof (intro set_eqI iffI)
  fix x :: "'a word"
  assume "x \<in> set (assignments xmax)"
  then obtain k where "k < Suc (unat xmax)" "x = of_nat k"
    by (auto simp: assignments_def simp del: upt_Suc)
  then have "k \<le> unat xmax" "x = of_nat k"
    by simp_all
  then show "x \<in> {x. x \<le> xmax}"
    by (simp add: word_le_nat_alt le_unat_uoi)
next
  fix x :: "'a word"
  assume "x \<in> {x. x \<le> xmax}"
  then have "unat x \<le> unat xmax" by (simp add: word_le_nat_alt)
  then have "unat x \<in> set [0..<Suc (unat xmax)]"
    by (simp del: upt_Suc)
  then have "of_nat (unat x) \<in> set (assignments xmax)"
    unfolding assignments_def set_map by (rule imageI)
  then show "x \<in> set (assignments xmax)" by simp
qed

lemma assignments_ascending: "sorted_wrt (<) (assignments xmax)"
proof -
  have "unat (assignments xmax ! i) < unat (assignments xmax ! j)"
    if "i < j" "j < length (assignments xmax)" for i j
    using that by (simp add: assignments_length assignments_nth le_unat_uoi [of _ xmax])
  then show ?thesis
    by (simp add: sorted_wrt_iff_nth_less word_less_nat_alt)
qed

lemma map_assignments:
  "map (\<lambda>k. f (0 + of_nat k)) [0..<Suc (unat c)] = map f (assignments c)"
  by (simp add: assignments_def del: upt_Suc)

lemma find_assignments_Some:
  assumes "find P (assignments xmax) = Some c"
  shows "c \<le> xmax \<and> P c \<and> (\<forall>k<unat c. \<not> P (of_nat k)) \<and> (\<forall>y<c. \<not> P y)"
proof -
  from assms obtain i where i: "i < Suc (unat xmax)" "P (assignments xmax ! i)"
    "c = assignments xmax ! i" "\<forall>j<i. \<not> P (assignments xmax ! j)"
    unfolding find_Some_iff assignments_length by blast
  from i(1) have il: "i \<le> unat xmax" by simp
  with i(3) have c: "c = of_nat i" "unat c = i"
    by (simp_all add: assignments_nth le_unat_uoi)
  have 1: "\<not> P (of_nat k)" if "k < unat c" for k
    using i(4) [rule_format, of k] that c il by (simp add: assignments_nth)
  have 2: "\<not> P y" if "y < c" for y
    using 1 [of "unat y"] that by (simp add: word_less_nat_alt)
  from c il have "c \<le> xmax" by (simp add: word_le_nat_alt)
  with i(2,3) 1 2 show ?thesis by auto
qed

lemma find_assignments_None:
  assumes "find P (assignments xmax) = None"
  shows "\<forall>y\<le>xmax. \<not> P y"
  using assms by (simp add: find_None_iff assignments_set)

lemma enumerate_char:
  fixes xmax :: "'a::len word"
  shows "enumerate propositions xmax 0 False [] =
     (case find (cex propositions) (assignments xmax) of
        Some c \<Rightarrow> Some (Counterexample c, map (visit propositions) (assignments c))
      | None \<Rightarrow>
          if xmax = - 1 then None
          else Some (Finished (list_ex (models propositions) (assignments xmax)),
                     map (visit propositions) (assignments xmax)))"
proof (cases "find (cex propositions) (assignments xmax)")
  case (Some c)
  note f = find_assignments_Some [OF Some]
  have "enumerate propositions xmax 0 False [] =
          Some (Counterexample c,
                [] @ map (\<lambda>k. visit propositions (0 + of_nat k)) [0..<Suc (unat c)])"
    by (rule enumerate_finds) (use f in simp_all)
  with Some show ?thesis
    by (simp only: map_assignments append_Nil option.case)
next
  case None
  note f = find_assignments_None [OF None]
  show ?thesis
  proof (cases "xmax = - 1")
    case True
    have "enumerate propositions xmax 0 False [] = None"
    proof (rule ccontr)
      assume "enumerate propositions xmax 0 False [] \<noteq> None"
      then obtain r where "enumerate propositions xmax 0 False [] = Some r" by auto
      from enumerate_returns_only_if [OF this True] obtain c :: "'a word"
        where "cex propositions c" by blast
      with f True show False by simp
    qed
    with None True show ?thesis by simp
  next
    case False
    have nc: "\<forall>k<Suc (unat xmax). \<not> cex propositions (0 + of_nat k :: 'a word)"
    proof (intro allI impI)
      fix k assume "k < Suc (unat xmax)"
      then have "(of_nat k :: 'a word) \<le> xmax"
        by (simp add: word_le_nat_alt le_unat_uoi [of _ xmax])
      with f show "\<not> cex propositions (0 + of_nat k :: 'a word)" by simp
    qed
    have ex: "(\<exists>k<Suc (unat xmax). models propositions (0 + of_nat k :: 'a word))
          \<longleftrightarrow> list_ex (models propositions) (assignments xmax)"
      by (auto simp: list_ex_iff assignments_def simp del: upt_Suc)
    have "enumerate propositions xmax 0 False [] =
          Some (Finished
                  (False \<or> (\<exists>k<Suc (unat xmax). models propositions (0 + of_nat k :: 'a word))),
                [] @ map (\<lambda>k. visit propositions (0 + of_nat k)) [0..<Suc (unat xmax)])"
      by (rule enumerate_finishes) (use False nc in simp_all)
    with None False show ?thesis
      by (simp only: map_assignments append_Nil option.case ex simp_thms if_False)
  qed
qed

lemma table_bits:
  "table variables c = map (\<lambda>j. (variables ! j, bit c j)) [0..<length variables]"
  unfolding table_def bit_iff_and_push_bit_not_eq_0 [of c] and.commute [of c] ..

lemma check_char:
  fixes w :: "'a::len itself"
  assumes "propositions \<noteq> []"
  shows "check w variables propositions =
     (case find (cex propositions) (assignments (computeMax (length variables) :: 'a word)) of
        Some c \<Rightarrow>
          Some ((TheoremFalse (table variables c), 1),
                map (visit propositions) (assignments c))
      | None \<Rightarrow>
          if (computeMax (length variables) :: 'a word) = - 1 then None
          else
            Some (if list_ex (models propositions)
                       (assignments (computeMax (length variables) :: 'a word))
                  then (TheoremVerified, 0) else (AxiomsNotConsistent, 0),
                  map (visit propositions)
                    (assignments (computeMax (length variables) :: 'a word))))"
  using assms
  by (simp add: check_def enumerate_char verdict_def split: option.splits)

lemma list_ex_find: "list_ex P xs \<longleftrightarrow> find P xs \<noteq> None"
  by (auto simp: find_None_iff list_ex_iff)

text \<open>
  Claim C2. For a list of at least one proposition the check ends in one of three ways,
  decided by the assignments from 0 to \<open>computeMax\<close> of the number of variables. If one of
  them is a counterexample, the run reports that the theorem is false and returns 1. If
  none is and the loop ends (which it does with fewer than 32 variables), the run returns
  0, and reports the theorem verified when one of them is a model of the axioms and the
  axioms not consistent when none is. Whenever the check returns, its report and its exit
  code are those of exactly one of the three cases, and \<^verbatim>\<open>main\<close> returns what the check
  returns.
\<close>

theorem three_outcomes:
  fixes w :: "'a::len itself"
  assumes "propositions \<noteq> []"
  shows
    "(list_ex (cex propositions) (assignments (computeMax (length variables) :: 'a word)) \<longrightarrow>
        (\<exists>tbl trace. check w variables propositions = Some ((TheoremFalse tbl, 1), trace)))
     \<and> (length variables < 32 \<and> 32 \<le> LENGTH('a)
          \<and> \<not> list_ex (cex propositions)
                (assignments (computeMax (length variables) :: 'a word))
          \<and> list_ex (models propositions)
                (assignments (computeMax (length variables) :: 'a word)) \<longrightarrow>
        (\<exists>trace. check w variables propositions = Some ((TheoremVerified, 0), trace)))
     \<and> (length variables < 32 \<and> 32 \<le> LENGTH('a)
          \<and> \<not> list_ex (cex propositions)
                (assignments (computeMax (length variables) :: 'a word))
          \<and> \<not> list_ex (models propositions)
                (assignments (computeMax (length variables) :: 'a word)) \<longrightarrow>
        (\<exists>trace. check w variables propositions = Some ((AxiomsNotConsistent, 0), trace)))
     \<and> (check w variables propositions = Some ((r, c), trace) \<longrightarrow>
          (list_ex (cex propositions) (assignments (computeMax (length variables) :: 'a word))
             \<and> (\<exists>tbl. r = TheoremFalse tbl) \<and> c = 1)
          \<or> (\<not> list_ex (cex propositions)
                  (assignments (computeMax (length variables) :: 'a word))
             \<and> list_ex (models propositions)
                  (assignments (computeMax (length variables) :: 'a word))
             \<and> r = TheoremVerified \<and> c = 0)
          \<or> (\<not> list_ex (cex propositions)
                  (assignments (computeMax (length variables) :: 'a word))
             \<and> \<not> list_ex (models propositions)
                  (assignments (computeMax (length variables) :: 'a word))
             \<and> r = AxiomsNotConsistent \<and> c = 0))
     \<and> (readLines lines 0 [] [] = Inr (Inr (propositions, variables))
          \<and> check w variables propositions = Some ((r, c), trace) \<longrightarrow>
          main w lines = Some (Inr (r, c)) \<and> exit_code (Inr (r, c)) = Some c)"
proof -
  define xs where "xs = assignments (computeMax (length variables) :: 'a word)"
  have top: "(computeMax (length variables) :: 'a word) \<noteq> - 1"
    if "length variables < 32 \<and> 32 \<le> LENGTH('a)"
    using that by (simp add: computeMax_not_top)
  have m: "main w lines = Some (Inr (r, c)) \<and> exit_code (Inr (r, c)) = Some c"
    if "readLines lines 0 [] [] = Inr (Inr (propositions, variables))
          \<and> check w variables propositions = Some ((r, c), trace)"
    using that by (simp add: main_def exit_code_def)
  show ?thesis
  proof (cases "find (cex propositions) xs")
    case (Some x)
    then have "list_ex (cex propositions) xs"
      by (simp add: list_ex_find)
    moreover from Some
    have "check w variables propositions =
            Some ((TheoremFalse (table variables x), 1),
                  map (visit propositions) (assignments x))"
      by (simp add: check_char [OF assms] xs_def)
    ultimately show ?thesis
      using m unfolding xs_def [symmetric] by auto
  next
    case None
    then have nc: "\<not> list_ex (cex propositions) xs"
      by (simp add: list_ex_find)
    show ?thesis
    proof (cases "(computeMax (length variables) :: 'a word) = - 1")
      case True
      with None have "check w variables propositions = None"
        by (simp add: check_char [OF assms] xs_def)
      with nc top True show ?thesis
        unfolding xs_def [symmetric] by auto
    next
      case False
      show ?thesis
      proof (cases "list_ex (models propositions) xs")
        case True
        with None False
        have "check w variables propositions =
                Some ((TheoremVerified, 0), map (visit propositions) xs)"
          by (simp add: check_char [OF assms] xs_def)
        with nc True m show ?thesis
          unfolding xs_def [symmetric] by auto
      next
        case nm: False
        with None False
        have "check w variables propositions =
                Some ((AxiomsNotConsistent, 0), map (visit propositions) xs)"
          by (simp add: check_char [OF assms] xs_def)
        with nc nm m show ?thesis
          unfolding xs_def [symmetric] by auto
      qed
    qed
  qed
qed

theorem three_outcomes_witness:
  "[Or (Var 0) (Var 1), Var 0] \<noteq> []
   \<and> list_ex (cex [Or (Var 0) (Var 1), Var 0])
         (assignments (computeMax (length [''A'', ''B'']) :: 32 word))
   \<and> (\<exists>tbl trace. check TYPE(32) [''A'', ''B''] [Or (Var 0) (Var 1), Var 0]
         = Some ((TheoremFalse tbl, 1), trace))
   \<and> (length [''A'', ''B''] < 32 \<and> 32 \<le> LENGTH(32)
       \<and> \<not> list_ex (cex [Var 0, Implies (Var 0) (Var 1), Var 1])
             (assignments (computeMax (length [''A'', ''B'']) :: 32 word))
       \<and> list_ex (models [Var 0, Implies (Var 0) (Var 1), Var 1])
             (assignments (computeMax (length [''A'', ''B'']) :: 32 word)))
   \<and> (\<exists>trace. check TYPE(32) [''A'', ''B''] [Var 0, Implies (Var 0) (Var 1), Var 1]
         = Some ((TheoremVerified, 0), trace))
   \<and> (length [''A''] < 32 \<and> 32 \<le> LENGTH(32)
       \<and> \<not> list_ex (cex [Var 0, NotE (Var 0), Var 0])
             (assignments (computeMax (length [''A'']) :: 32 word))
       \<and> \<not> list_ex (models [Var 0, NotE (Var 0), Var 0])
             (assignments (computeMax (length [''A'']) :: 32 word)))
   \<and> (\<exists>trace. check TYPE(32) [''A''] [Var 0, NotE (Var 0), Var 0]
         = Some ((AxiomsNotConsistent, 0), trace))
   \<and> (readLines [''( [A] or [B] )'', ''[A]''] 0 [] []
         = Inr (Inr ([Or (Var 0) (Var 1), Var 0], [''A'', ''B'']))
       \<and> check TYPE(32) [''A'', ''B''] [Or (Var 0) (Var 1), Var 0]
         = Some ((TheoremFalse [(''A'', False), (''B'', True)], 1),
                 [(0, [0]), (1, [0, 1]), (2, [0, 1])]))
   \<and> main TYPE(32) [''( [A] or [B] )'', ''[A]'']
        = Some (Inr (TheoremFalse [(''A'', False), (''B'', True)], 1))
   \<and> exit_code (Inr (TheoremFalse [(''A'', False), (''B'', True)], 1)) = Some 1
   \<and> ((\<exists>tbl. TheoremFalse [(''A'', False), (''B'', True)] = TheoremFalse tbl)
         \<and> (1::int) = 1
       \<or> TheoremFalse [(''A'', False), (''B'', True)] = TheoremVerified \<and> (1::int) = 0
       \<or> TheoremFalse [(''A'', False), (''B'', True)] = AxiomsNotConsistent \<and> (1::int) = 0)"
proof -
  have n: "[Or (Var 0) (Var 1), Var 0] \<noteq> []" "[Var 0, Implies (Var 0) (Var 1), Var 1] \<noteq> []"
    "[Var 0, NotE (Var 0), Var 0] \<noteq> []"
    by simp_all
  have a: "list_ex (cex [Or (Var 0) (Var 1), Var 0])
         (assignments (computeMax (length [''A'', ''B'']) :: 32 word))"
    by code_simp
  have b: "length [''A'', ''B''] < 32 \<and> 32 \<le> LENGTH(32)
       \<and> \<not> list_ex (cex [Var 0, Implies (Var 0) (Var 1), Var 1])
             (assignments (computeMax (length [''A'', ''B'']) :: 32 word))
       \<and> list_ex (models [Var 0, Implies (Var 0) (Var 1), Var 1])
             (assignments (computeMax (length [''A'', ''B'']) :: 32 word))"
    by code_simp
  have c: "length [''A''] < 32 \<and> 32 \<le> LENGTH(32)
       \<and> \<not> list_ex (cex [Var 0, NotE (Var 0), Var 0])
             (assignments (computeMax (length [''A'']) :: 32 word))
       \<and> \<not> list_ex (models [Var 0, NotE (Var 0), Var 0])
             (assignments (computeMax (length [''A'']) :: 32 word))"
    by code_simp
  have e: "readLines [''( [A] or [B] )'', ''[A]''] 0 [] []
         = Inr (Inr ([Or (Var 0) (Var 1), Var 0], [''A'', ''B'']))
       \<and> check TYPE(32) [''A'', ''B''] [Or (Var 0) (Var 1), Var 0]
         = Some ((TheoremFalse [(''A'', False), (''B'', True)], 1),
                 [(0, [0]), (1, [0, 1]), (2, [0, 1])])"
    by code_simp
  note ta = three_outcomes [where w = "TYPE(32)" and variables = "[''A'', ''B'']",
      OF n(1), THEN conjunct1, rule_format, OF a]
  note tb = three_outcomes [where w = "TYPE(32)" and variables = "[''A'', ''B'']",
      OF n(2), THEN conjunct2, THEN conjunct1, rule_format, OF b]
  note tc = three_outcomes [where w = "TYPE(32)" and variables = "[''A'']",
      OF n(3), THEN conjunct2, THEN conjunct2, THEN conjunct1, rule_format, OF c]
  note te = three_outcomes [where w = "TYPE(32)" and variables = "[''A'', ''B'']"
      and r = "TheoremFalse [(''A'', False), (''B'', True)]" and c = 1
      and trace = "[(0, [0]), (1, [0, 1]), (2, [0, 1])]"
      and lines = "[''( [A] or [B] )'', ''[A]'']",
      OF n(1), THEN conjunct2, THEN conjunct2, THEN conjunct2, THEN conjunct2,
      rule_format, OF e]
  note td = three_outcomes [where w = "TYPE(32)" and variables = "[''A'', ''B'']"
      and r = "TheoremFalse [(''A'', False), (''B'', True)]" and c = 1
      and trace = "[(0, [0]), (1, [0, 1]), (2, [0, 1])]",
      OF n(1), THEN conjunct2, THEN conjunct2, THEN conjunct2, THEN conjunct1,
      rule_format, OF e [THEN conjunct2]]
  from td a have d: "(\<exists>tbl. TheoremFalse [(''A'', False), (''B'', True)] = TheoremFalse tbl)
         \<and> (1::int) = 1
       \<or> TheoremFalse [(''A'', False), (''B'', True)] = TheoremVerified \<and> (1::int) = 0
       \<or> TheoremFalse [(''A'', False), (''B'', True)] = AxiomsNotConsistent \<and> (1::int) = 0"
    by blast
  show ?thesis
    using n(1) a b c e ta tb tc te d by (simp only: simp_thms)
qed

text \<open>
  Claim C3. When the first counterexample in the list of the assignments from 0 to
  \<open>computeMax\<close> of the number of variables is \<open>c\<close>, the check reports that the theorem is
  false with the table of \<open>c\<close> and returns 1. \<open>c\<close> is the smallest counterexample. The table
  has one row for each registered variable, in the order of the registry, with the name
  and the bit of \<open>c\<close> at the index of the variable. The loop has visited exactly the
  assignments from 0 to \<open>c\<close>, in ascending order, and none after \<open>c\<close>. At every assignment
  the theorem, the last proposition, is evaluated exactly when all axioms hold there.
\<close>

theorem first_counterexample:
  fixes w :: "'a::len itself"
  assumes "propositions \<noteq> []"
    and "find (cex propositions) (assignments (computeMax (length variables) :: 'a word))
           = Some c"
  shows "check w variables propositions =
           Some ((TheoremFalse (table variables c), 1),
                 map (visit propositions) (assignments c))
       \<and> c \<le> computeMax (length variables) \<and> cex propositions c
       \<and> (\<forall>y<c. \<not> cex propositions y)
       \<and> table variables c = map (\<lambda>j. (variables ! j, bit c j)) [0..<length variables]
       \<and> map fst (map (visit propositions) (assignments c)) = assignments c
       \<and> sorted_wrt (<) (assignments c) \<and> set (assignments c) = {y. y \<le> c}
       \<and> (\<forall>x :: 'a word.
            length propositions - 1 \<in> set (snd (visit propositions x))
              \<longleftrightarrow> models propositions x)"
proof -
  have "map fst (map (visit propositions) (assignments c)) = assignments c"
    by (simp add: visit_fst comp_def)
  with find_assignments_Some [OF assms(2)] assms(2) show ?thesis
    by (simp add: check_char [OF assms(1)] table_bits assignments_ascending assignments_set
        visit_theorem [unfolded One_nat_def])
qed

theorem first_counterexample_witness:
  "[Or (Var 0) (Var 1), Var 0] \<noteq> []
   \<and> find (cex [Or (Var 0) (Var 1), Var 0])
        (assignments (computeMax (length [''A'', ''B'']) :: 32 word)) = Some 2
   \<and> check TYPE(32) [''A'', ''B''] [Or (Var 0) (Var 1), Var 0] =
        Some ((TheoremFalse (table [''A'', ''B''] (2 :: 32 word)), 1),
              map (visit [Or (Var 0) (Var 1), Var 0]) (assignments (2 :: 32 word)))
   \<and> table [''A'', ''B''] (2 :: 32 word) = [(''A'', False), (''B'', True)]
   \<and> map (visit [Or (Var 0) (Var 1), Var 0]) (assignments (2 :: 32 word))
        = [(0, [0]), (1, [0, 1]), (2, [0, 1])]
   \<and> cex [Or (Var 0) (Var 1), Var 0] (2 :: 32 word)
   \<and> \<not> cex [Or (Var 0) (Var 1), Var 0] (1 :: 32 word)
   \<and> \<not> cex [Or (Var 0) (Var 1), Var 0] (0 :: 32 word)"
proof -
  have n: "[Or (Var 0) (Var 1), Var 0] \<noteq> []"
    by simp
  have f: "find (cex [Or (Var 0) (Var 1), Var 0])
        (assignments (computeMax (length [''A'', ''B'']) :: 32 word)) = Some 2"
    by code_simp
  have t: "table [''A'', ''B''] (2 :: 32 word) = [(''A'', False), (''B'', True)]"
    by code_simp
  have v: "map (visit [Or (Var 0) (Var 1), Var 0]) (assignments (2 :: 32 word))
        = [(0, [0]), (1, [0, 1]), (2, [0, 1])]"
    by code_simp
  from first_counterexample [OF n f, of "TYPE(32)"]
  have "check TYPE(32) [''A'', ''B''] [Or (Var 0) (Var 1), Var 0] =
        Some ((TheoremFalse (table [''A'', ''B''] (2 :: 32 word)), 1),
              map (visit [Or (Var 0) (Var 1), Var 0]) (assignments (2 :: 32 word)))"
    "cex [Or (Var 0) (Var 1), Var 0] (2 :: 32 word)"
    "\<forall>y<2 :: 32 word. \<not> cex [Or (Var 0) (Var 1), Var 0] y"
    by blast+
  moreover from this(3)
  have "\<not> cex [Or (Var 0) (Var 1), Var 0] (1 :: 32 word)"
    "\<not> cex [Or (Var 0) (Var 1), Var 0] (0 :: 32 word)"
    by simp_all
  ultimately show ?thesis
    using n f t v by (simp only: simp_thms)
qed

text \<open>
  Claim C4, at a file whose only line is \<open>T\<close>. No variable is registered, so the
  assignments from 0 to \<open>2 ^ 0 - 1\<close> are the single assignment 0; \<^verbatim>\<open>max\<close> starts at 1 and
  the loop that sets the other bits does not run, so the loop over \<^verbatim>\<open>x\<close> visits 0 and then
  1, and evaluates the theorem at both.
\<close>

theorem enumeration_zero_variables:
  "readLines [''T''] 0 [] [] = Inr (Inr ([TrueE], []))
   \<and> (computeMax (length ([] :: string list)) :: 32 word) = 1
   \<and> check TYPE(32) [] [TrueE] = Some ((TheoremVerified, 0), [(0, [0]), (1, [0])])
   \<and> map fst [(0 :: 32 word, [0 :: nat]), (1, [0])] \<noteq> assignments (2 ^ 0 - 1 :: 32 word)
   \<and> assignments (2 ^ 0 - 1 :: 32 word) = [0]"
  by code_simp

text \<open>
  With 1 to 31 variables \<^verbatim>\<open>max\<close> is \<open>2 ^ n - 1\<close>, and a loop that finds no counterexample
  visits the assignments from 0 to \<open>2 ^ n - 1\<close> in ascending order and ends.
\<close>

lemma enumeration_range:
  fixes w :: "'a::len itself"
  assumes "propositions \<noteq> []" "1 \<le> length variables" "length variables \<le> 31"
    "32 \<le> LENGTH('a)"
    and "\<not> list_ex (cex propositions) (assignments (2 ^ length variables - 1 :: 'a word))"
  shows "(computeMax (length variables) :: 'a word) = 2 ^ length variables - 1
       \<and> (\<exists>r. check w variables propositions =
             Some (r, map (visit propositions)
                        (assignments (2 ^ length variables - 1 :: 'a word))))
       \<and> map fst (map (visit propositions) (assignments (2 ^ length variables - 1 :: 'a word)))
           = assignments (2 ^ length variables - 1 :: 'a word)"
proof -
  from assms(2,3) have m: "(computeMax (length variables) :: 'a word) = 2 ^ length variables - 1"
    by (simp add: computeMax_mask mask_eq_decr_exp)
  from assms(3,4) have t: "(computeMax (length variables) :: 'a word) \<noteq> - 1"
    by (simp add: computeMax_not_top)
  from assms(5) have f: "find (cex propositions)
      (assignments (computeMax (length variables) :: 'a word)) = None"
    by (simp add: m list_ex_find)
  have "map fst (map (visit propositions) (assignments (2 ^ length variables - 1 :: 'a word)))
           = assignments (2 ^ length variables - 1 :: 'a word)"
    by (simp add: visit_fst comp_def)
  with m t f show ?thesis
    by (simp add: check_char [OF assms(1)])
qed

text \<open>
  With 32 variables \<^verbatim>\<open>max\<close> has all its bits set (the shift \<^verbatim>\<open>1 << 31\<close> gives the
  \<^verbatim>\<open>int\<close> with only the sign bit set, and its conversion sets every higher bit), the test
  \<^verbatim>\<open>x <= max\<close> never fails, and a loop that finds no counterexample never ends.
\<close>

lemma enumeration_32_variables:
  fixes w :: "'a::len itself"
  assumes "propositions \<noteq> []" "length variables = 32" "32 \<le> LENGTH('a)"
    and "\<forall>x :: 'a word. \<not> cex propositions x"
  shows "check w variables propositions = None"
proof -
  from assms(2,3) have m: "(computeMax (length variables) :: 'a word) = - 1"
    by (simp add: computeMax_32)
  from assms(4) have "find (cex propositions)
      (assignments (computeMax (length variables) :: 'a word)) = None"
    by (simp add: find_None_iff)
  with m show ?thesis
    by (simp add: check_char [OF assms(1)])
qed

section \<open>No node is built from a null pointer\<close>

lemma parse_never_null:
  "parseExpr s variables \<noteq> Inl NullOperand"
  "parseNot s variables \<noteq> Inl NullOperand"
  "parseBinaryExpr s variables \<noteq> Inl NullOperand"
  using parseExpr_inv [of s variables] parseNot_inv [of s variables]
    parseBinaryExpr_inv [of s variables]
  by (auto simp: inv_Inl)

lemma parseTopLevelExpr_never_null: "parseTopLevelExpr s variables \<noteq> Inl NullOperand"
  using parse_never_null(1) [of s variables]
  by (auto simp: parseTopLevelExpr_blank parse_never_null(1) split: sum.splits)

lemma readLines_never_null:
  "readLines lines linenum propositions variables \<noteq> Inl NullOperand"
proof (induction lines arbitrary: linenum propositions variables)
  case Nil
  show ?case by simp
next
  case (Cons line rest)
  show ?case
  proof (cases "skipped line")
    case True
    with Cons show ?thesis
      by (simp add: readLines_skipped del: readLines.simps)
  next
    case False
    note step = readLines_not_skipped [OF False, of rest linenum propositions variables]
    show ?thesis
    proof (cases "parseTopLevelExpr line variables")
      case (Inl err)
      with step parseTopLevelExpr_never_null [of line variables] show ?thesis by simp
    next
      case (Inr t)
      obtain ok p v' where t: "t = (ok, p, v')" by (cases t) auto
      from parseTopLevelExpr_inv [of line variables ok p v'] Inr t
      have "ok \<longrightarrow> (\<exists>E. p = Some E)" by auto
      with step Inr t Cons show ?thesis by auto
    qed
  qed
qed

lemma main_exit_code:
  "main w lines = Some r \<Longrightarrow> \<exists>c. exit_code r = Some c"
  using readLines_never_null [of lines 0 "[]" "[]"]
  by (cases r; cases "readLines lines 0 [] []")
    (auto simp: main_def exit_code_def split: sum.splits error.splits)

section \<open>The limit on the variables\<close>

lemma skipWS_blank_app:
  "blank ws \<Longrightarrow> deref t = c \<Longrightarrow> \<not> isspace c \<Longrightarrow> skipWS (ws @ t) = length ws"
  by (induction ws) (auto simp: blank_def deref_def split: list.splits)

lemma findClose_app:
  "list_all (\<lambda>c. c \<noteq> CHR '']'') xs \<Longrightarrow> findClose (xs @ CHR '']'' # rest) = Some (length xs)"
  by (induction xs) auto

lemma blank_no_bracket: "blank ws \<Longrightarrow> list_all (\<lambda>c. c \<noteq> CHR '']'') ws"
  by (induction ws) (auto simp: blank_def isspace_def)

lemma dropWhile_rev_blank:
  "blank ws \<Longrightarrow> dropWhile isspace (rev ws @ xs) = dropWhile isspace xs"
  by (induction ws rule: rev_induct) (auto simp: blank_def)

lemma varName_trim:
  assumes "plain name" "blank ws" "name \<noteq> []"
  shows "varName (name @ ws) = name"
proof -
  from assms(3) obtain c cs where name: "name = c # cs" by (cases name) auto
  have "rev (dropWhile isspace (rev (cs @ ws))) = cs"
  proof (cases cs rule: rev_cases)
    case Nil
    with assms(2) show ?thesis by (simp add: blank_def dropWhile_eq_Nil_conv list_all_iff)
  next
    case (snoc ys y)
    with assms(1) name have "\<not> isspace y" by (simp add: plain_def)
    with snoc show ?thesis by (simp add: dropWhile_rev_blank [OF assms(2)])
  qed
  with name show ?thesis by (simp add: varName_def)
qed

text \<open>
  \<^verbatim>\<open>parseVar\<close> on a token: the name is what stands between the brackets without the white
  space around it, and the registry decides the rest.
\<close>

lemma parseVar_token:
  assumes "blank ws" "blank ws'" "plain name"
  shows "parseVar (''['' @ ws @ name @ ws' @ '']'' @ rest) variables =
     (case resolve variables name of
        Inl err \<Rightarrow> Inl err
      | Inr (i, variables') \<Rightarrow>
          Inr (length ws + length name + length ws' + 2, Some (Var i), variables'))"
proof (cases "name = []")
  case True
  have k: "skipWS (ws @ ws' @ '']'' @ rest) = length ws + length ws'"
    using skipWS_blank_app [of "ws @ ws'" "'']'' @ rest" "CHR '']''"] assms(1,2)
    by (simp add: blank_def deref_def isspace_def)
  show ?thesis
    using True k by (simp add: parseVar_def deref_def varName_def split: sum.splits)
next
  case False
  then obtain c cs where name: "name = c # cs" by (cases name) auto
  with assms(3) have c: "\<not> isspace c" by (simp add: plain_def)
  have k: "skipWS (ws @ name @ ws' @ '']'' @ rest) = length ws"
    using skipWS_blank_app [OF assms(1), of "name @ ws' @ '']'' @ rest" c] c name
    by (simp add: deref_def)
  have "list_all (\<lambda>c. c \<noteq> CHR '']'') (name @ ws')"
    using assms(3) blank_no_bracket [OF assms(2)] by (simp add: plain_def)
  from findClose_app [OF this, of rest]
  have f: "findClose (name @ ws' @ '']'' @ rest) = Some (length name + length ws')"
    by simp
  have t: "take (length name + length ws') (name @ ws' @ CHR '']'' # rest) = name @ ws'"
    by simp
  show ?thesis
    using k f varName_trim [OF assms(3,2) False]
    by (simp add: parseVar_def deref_def t del: take_append split: sum.splits)
qed

lemma parseVar_below:
  "length variables < 32 \<Longrightarrow> parseVar s variables \<noteq> Inl err"
  by (auto simp: parseVar_def resolve_def Let_def split: if_splits option.splits)

text \<open>The way of \<^verbatim>\<open>exit(1)\<close> from \<^verbatim>\<open>parseVar\<close> out of the run.\<close>

lemma bracket_not_const:
  "deref e = CHR ''['' \<Longrightarrow> fst (parseTrue e) = 0 \<and> fst (parseFalse e) = 0"
  by (cases e) (simp_all add: parseTrue_def parseFalse_def parseString_def deref_def)

lemma parseVar_Inl_bracket: "parseVar e variables = Inl err \<Longrightarrow> deref e = CHR ''[''"
  by (cases "deref e = CHR ''[''") (simp_all add: parseVar_def)

lemma parseExpr_bracket:
  "deref (drop (skipWS s) s) = CHR ''['' \<Longrightarrow>
   parseVar (drop (skipWS s) s) variables = Inr (n, p, variables') \<Longrightarrow> n \<noteq> 0 \<Longrightarrow>
   parseExpr s variables = Inr (skipWS s + n, p, variables')"
  using bracket_not_const [of "drop (skipWS s) s"]
  by (simp add: parseExpr.simps [of s variables])

lemma parseExpr_over:
  "parseVar (drop (skipWS s) s) variables = Inl err \<Longrightarrow> parseExpr s variables = Inl err"
  using bracket_not_const [OF parseVar_Inl_bracket, of "drop (skipWS s) s" variables err]
  by (simp add: parseExpr.simps [of s variables])

lemma parseTopLevelExpr_over:
  "parseExpr s variables = Inl err \<Longrightarrow> parseTopLevelExpr s variables = Inl err"
  by (simp add: parseTopLevelExpr_blank)

lemma readLines_over:
  "\<not> skipped line \<Longrightarrow> parseTopLevelExpr line variables = Inl err \<Longrightarrow>
   readLines (line # rest) linenum propositions variables = Inl err"
  by (simp add: readLines_not_skipped del: readLines.simps)

lemma readLines_registry:
  "readLines lines linenum propositions variables = Inr (Inr (props, registry)) \<Longrightarrow>
   reg_le variables registry"
proof (induction lines arbitrary: linenum propositions variables)
  case Nil
  then show ?case by (simp add: reg_le_refl)
next
  case (Cons line rest)
  show ?case
  proof (cases "skipped line")
    case True
    with Cons.prems
    have "readLines rest (linenum + 1) propositions variables = Inr (Inr (props, registry))"
      by (simp add: readLines_skipped del: readLines.simps)
    from Cons.IH [OF this] show ?thesis .
  next
    case False
    note step = readLines_not_skipped [OF False, of rest linenum propositions variables]
    show ?thesis
    proof (cases "parseTopLevelExpr line variables")
      case (Inl err)
      with Cons.prems step show ?thesis by simp
    next
      case (Inr t)
      obtain ok p v' where t: "t = (ok, p, v')" by (cases t) auto
      from parseTopLevelExpr_inv [of line variables ok p v'] Inr t
      have le: "reg_le variables v'" by simp
      show ?thesis
      proof (cases ok)
        case False
        with Cons.prems step Inr t show ?thesis by simp
      next
        case True
        show ?thesis
        proof (cases p)
          case None
          with Cons.prems step Inr t True show ?thesis by simp
        next
          case (Some e)
          with Cons.prems step Inr t True
          have "readLines rest (linenum + 1) (propositions @ [e]) v' = Inr (Inr (props, registry))"
            by simp
          from reg_le_trans [OF le Cons.IH [OF this]] show ?thesis .
        qed
      qed
    qed
  qed
qed

text \<open>A line that is one variable, with white space after it at most.\<close>

lemma line_not_skipped: "\<not> skipped (''['' @ t)"
  by (simp add: skipped_def deref_def isspace_def)

lemma parseTopLevelExpr_line:
  assumes "plain name" "blank nl"
  shows "parseTopLevelExpr (''['' @ name @ '']'' @ nl) variables =
     (case resolve variables name of
        Inl err \<Rightarrow> Inl err
      | Inr (i, variables') \<Rightarrow> Inr (True, Some (Var i), variables'))"
proof -
  let ?s = "''['' @ name @ '']'' @ nl"
  have b: "blank []" by (simp add: blank_def)
  note v = parseVar_token [OF b b assms(1), of nl variables]
  have d: "drop (skipWS ?s) ?s = ?s" by (simp add: isspace_def)
  show ?thesis
  proof (cases "resolve variables name")
    case (Inl err)
    with v have "parseVar (drop (skipWS ?s) ?s) variables = Inl err"
      unfolding d by simp
    from parseTopLevelExpr_over [OF parseExpr_over [OF this]] Inl show ?thesis
      by simp
  next
    case (Inr r)
    obtain i v' where r: "r = (i, v')" by (cases r) auto
    from v Inr r have "parseVar (drop (skipWS ?s) ?s) variables
        = Inr (length name + 2, Some (Var i), v')"
      unfolding d by simp
    from parseExpr_bracket [OF _ this]
    have "parseExpr ?s variables = Inr (length name + 2, Some (Var i), v')"
      by (simp add: deref_def isspace_def)
    with Inr r assms(2) show ?thesis
      by (simp add: parseTopLevelExpr_blank)
  qed
qed

text \<open>The registry that a list of names leaves behind.\<close>

lemma search_prefix: "var \<in> set variables \<Longrightarrow> search (variables @ ws) var = search variables var"
  by (induction variables) auto

lemma register_prefix: "\<exists>ws. register variables names = variables @ ws"
proof (induction names arbitrary: variables)
  case Nil
  show ?case by simp
next
  case (Cons name names)
  from Cons [of "if name \<in> set variables then variables else variables @ [name]"]
  show ?case by (auto split: if_splits)
qed

lemma register_length: "length variables \<le> length (register variables names)"
  using register_prefix [of variables names] by auto

lemma search_register:
  "var \<in> set variables \<Longrightarrow> search (register variables names) var = search variables var"
  using register_prefix [of variables names] by (auto simp: search_prefix)

lemma register_set: "set (register variables names) = set variables \<union> set names"
  by (induction names arbitrary: variables) auto

lemma register_distinct: "distinct variables \<Longrightarrow> distinct (register variables names)"
  by (induction names arbitrary: variables) auto

lemma register_fresh:
  "distinct (variables @ names) \<Longrightarrow> register variables names = variables @ names"
  by (induction names arbitrary: variables) auto

lemma search_distinct:
  "distinct names \<Longrightarrow> map (search names) names = [0..<length names]"
proof (rule nth_equalityI)
  show "length (map (search names) names) = length [0..<length names]" by simp
next
  fix k
  assume d: "distinct names" and "k < length (map (search names) names)"
  then have k: "k < length names" by simp
  then have m: "names ! k \<in> set names" by simp
  from search_mem [OF m] d k have "search names (names ! k) = k"
    by (auto simp: nth_eq_iff_index_eq)
  with k show "map (search names) names ! k = [0..<length names] ! k" by simp
qed

text \<open>
  The run over a file of such lines, from any point on: the names are registered in the
  order of their first occurrence, every line becomes the variable with the index of its
  name, and the run ends in \<^verbatim>\<open>parseVar\<close> when, and only when, there are more than 32
  different names.
\<close>

lemma readLines_names:
  assumes "blank nl"
  shows "list_all plain names \<Longrightarrow> length variables \<le> 32 \<Longrightarrow>
    readLines (map (\<lambda>name. ''['' @ name @ '']'' @ nl) names) linenum propositions variables =
      (if length (register variables names) \<le> 32
       then Inr (Inr (propositions
                        @ map (\<lambda>name. Var (search (register variables names) name)) names,
                      register variables names))
       else Inl OverVariables)"
proof (induction names arbitrary: linenum propositions variables)
  case Nil
  then show ?case by simp
next
  case (Cons name names)
  let ?line = "''['' @ name @ '']'' @ nl"
  let ?rest = "map (\<lambda>name. ''['' @ name @ '']'' @ nl) names"
  let ?v = "if name \<in> set variables then variables else variables @ [name]"
  from Cons.prems have p: "plain name" and ps: "list_all plain names" by simp_all
  note top = parseTopLevelExpr_line [OF p assms, of variables]
  have ns: "\<not> skipped ?line" by (rule line_not_skipped)
  note step = readLines_not_skipped [OF ns, of ?rest linenum propositions variables]
  show ?case
  proof (cases "length ?v \<le> 32")
    case False
    with Cons.prems have "name \<notin> set variables" "length variables = 32"
      by (auto split: if_splits)
    from resolve_full [OF this] top step
    have "readLines (?line # ?rest) linenum propositions variables = Inl OverVariables"
      by simp
    moreover from False register_length [of ?v names]
    have "\<not> length (register variables (name # names)) \<le> 32" by simp
    ultimately show ?thesis by simp
  next
    case True
    have r: "resolve variables name = Inr (search variables name, ?v)"
    proof (cases "name \<in> set variables")
      case True
      with resolve_known [OF True Cons.prems(2)] show ?thesis by simp
    next
      case False
      with True have "length variables < 32" by simp
      from resolve_new [OF False this] False show ?thesis by (simp add: search_not_mem)
    qed
    with top step
    have "readLines (?line # ?rest) linenum propositions variables
        = readLines ?rest (linenum + 1) (propositions @ [Var (search variables name)]) ?v"
      by simp
    also note Cons.IH [OF ps True, of "linenum + 1" "propositions @ [Var (search variables name)]"]
    finally have e: "readLines (?line # ?rest) linenum propositions variables =
      (if length (register ?v names) \<le> 32
       then Inr (Inr ((propositions @ [Var (search variables name)])
                        @ map (\<lambda>name. Var (search (register ?v names) name)) names,
                      register ?v names))
       else Inl OverVariables)" .
    have "name \<in> set ?v" by simp
    from search_register [OF this, of names]
    have "search (register ?v names) name = search ?v name" .
    also have "\<dots> = search variables name"
      by (simp add: search_append search_not_mem)
    finally have s: "search (register ?v names) name = search variables name" .
    have g: "register variables (name # names) = register ?v names" by simp
    show ?thesis
      unfolding list.map g using e s by simp
  qed
qed

text \<open>
  Claim C5. In the registry: a name that is in a registry of at most 32 names resolves
  to the index of its first occurrence and leaves the registry as it is, and resolving
  the name that was just resolved gives the same index again; a new name is appended and
  gets the next free index as long as fewer than 32 names are registered, which covers
  the 32nd name, with index 31; with 32 names registered a new name, the 33rd, ends the
  run (\<open>OverVariables\<close>).
  In the parser: \<^verbatim>\<open>parseVar\<close> resolves the name that stands between the brackets, without
  the white space around it, returns the variable with the index that the registry gives
  and the registry as updated, and ends the run when the registry does; with fewer than
  32 names registered it never ends the run. When \<^verbatim>\<open>parseVar\<close> ends the run at the start
  of an expression, \<^verbatim>\<open>parseExpr\<close> ends it; when \<^verbatim>\<open>parseExpr\<close> ends it, the top-level parse
  does; when the top-level parse of a line that is not skipped ends it, the loop over
  the lines does.
  In the whole run: a run that ends inside the parser while the file is read ends by the
  limit on the variables, it is the result of \<^verbatim>\<open>main\<close> and its exit code is 1; a run
  that reads the file to its end has registered at most 32 names. For a
  file whose lines are one variable each, the names are registered in the order of their
  first occurrence, every line is the variable with the index of its name, and the run
  ends at the limit exactly when there are more than 32 different names: with names that
  are all different, at most 32 lines are read to the end, with the indices 0, 1, ... in
  order, and 33 or more end the run.
\<close>

theorem variable_registry:
  "(var \<in> set variables \<and> length variables \<le> 32 \<longrightarrow>
      resolve variables var = Inr (search variables var, variables)
      \<and> search variables var < length variables
      \<and> variables ! search variables var = var)
   \<and> (resolve variables var = Inr (i, variables') \<longrightarrow>
      resolve variables' var = Inr (i, variables'))
   \<and> (var \<notin> set variables \<and> length variables < 32 \<longrightarrow>
      resolve variables var = Inr (length variables, variables @ [var]))
   \<and> (var \<notin> set variables \<and> length variables = 32 \<longrightarrow>
      resolve variables var = Inl OverVariables)
   \<and> (blank ws \<and> blank ws' \<and> plain var \<longrightarrow>
      parseVar (''['' @ ws @ var @ ws' @ '']'' @ rest) variables =
        (case resolve variables var of
           Inl e \<Rightarrow> Inl e
         | Inr (j, v) \<Rightarrow> Inr (length ws + length var + length ws' + 2, Some (Var j), v)))
   \<and> (length variables < 32 \<longrightarrow> parseVar s variables \<noteq> Inl err)
   \<and> (parseVar (drop (skipWS s) s) variables = Inl err \<longrightarrow> parseExpr s variables = Inl err)
   \<and> (parseExpr s variables = Inl err \<longrightarrow> parseTopLevelExpr s variables = Inl err)
   \<and> (\<not> skipped s \<and> parseTopLevelExpr s variables = Inl err \<longrightarrow>
      readLines (s # lines) linenum propositions variables = Inl err)
   \<and> (readLines lines 0 [] [] = Inl err \<longrightarrow>
      err = OverVariables \<and> main w lines = Some (Inl OverVariables)
      \<and> exit_code (Inl OverVariables) = Some 1)
   \<and> (readLines lines 0 [] [] = Inr (Inr (props, registry)) \<longrightarrow> length registry \<le> 32)
   \<and> (list_all plain names \<and> blank nl \<longrightarrow>
      readLines (map (\<lambda>name. ''['' @ name @ '']'' @ nl) names) 0 [] [] =
        (if length (register [] names) \<le> 32
         then Inr (Inr (map (\<lambda>name. Var (search (register [] names) name)) names,
                        register [] names))
         else Inl OverVariables))
   \<and> (distinct names \<longrightarrow>
      register [] names = names \<and> map (search names) names = [0..<length names])"
proof -
  have 1: "var \<in> set variables \<and> length variables \<le> 32 \<longrightarrow>
      resolve variables var = Inr (search variables var, variables)
      \<and> search variables var < length variables
      \<and> variables ! search variables var = var"
    using search_mem [of var variables] by (simp add: resolve_known)
  have 10: "readLines lines 0 [] [] = Inl err \<longrightarrow>
      err = OverVariables \<and> main w lines = Some (Inl OverVariables)
      \<and> exit_code (Inl OverVariables) = Some 1"
    using readLines_never_null [of lines 0 "[]" "[]"]
    by (cases err) (simp_all add: main_def exit_code_def)
  have 11: "readLines lines 0 [] [] = Inr (Inr (props, registry)) \<longrightarrow> length registry \<le> 32"
    using readLines_registry [of lines 0 "[]" "[]" props registry]
    by (auto simp: reg_le_def)
  have 12: "list_all plain names \<and> blank nl \<longrightarrow>
      readLines (map (\<lambda>name. ''['' @ name @ '']'' @ nl) names) 0 [] [] =
        (if length (register [] names) \<le> 32
         then Inr (Inr (map (\<lambda>name. Var (search (register [] names) name)) names,
                        register [] names))
         else Inl OverVariables)"
    using readLines_names [of nl names "[]" 0 "[]"] by simp
  have 13: "distinct names \<longrightarrow>
      register [] names = names \<and> map (search names) names = [0..<length names]"
    using register_fresh [of "[]" names] by (simp add: search_distinct)
  show ?thesis
    using 1 resolve_again [of variables var i variables'] resolve_new [of var variables]
      resolve_full [of var variables] parseVar_token [of ws ws' var rest variables]
      parseVar_below [of variables s err] parseExpr_over [of s variables err]
      parseTopLevelExpr_over [of s variables err]
      readLines_over [of s variables err lines linenum propositions] 10 11 12 13
    by blast
qed

theorem variable_registry_witness:
  "(''B'' \<in> set [''A'', ''B''] \<and> length [''A'', ''B''] \<le> 32)
   \<and> resolve [''A'', ''B''] ''B'' = Inr (1, [''A'', ''B''])
   \<and> resolve [''A''] ''B'' = Inr (1, [''A'', ''B''])
   \<and> (replicate 32 CHR ''x'' \<notin> set (map (\<lambda>n. replicate n CHR ''x'') [1..<32])
        \<and> length (map (\<lambda>n. replicate n CHR ''x'') [1..<32]) < 32)
   \<and> resolve (map (\<lambda>n. replicate n CHR ''x'') [1..<32]) (replicate 32 CHR ''x'')
        = Inr (31, map (\<lambda>n. replicate n CHR ''x'') [1..<32] @ [replicate 32 CHR ''x''])
   \<and> (replicate 33 CHR ''x'' \<notin> set (map (\<lambda>n. replicate n CHR ''x'') [1..<33])
        \<and> length (map (\<lambda>n. replicate n CHR ''x'') [1..<33]) = 32)
   \<and> resolve (map (\<lambda>n. replicate n CHR ''x'') [1..<33]) (replicate 33 CHR ''x'')
        = Inl OverVariables
   \<and> (blank '' '' \<and> blank ''  '' \<and> plain ''B c'')
   \<and> parseVar ''[ B c  ] and T'' [''A''] = Inr (8, Some (Var 1), [''A'', ''B c''])
   \<and> parseVar ''[ B c  ] and T'' (map (\<lambda>n. replicate n CHR ''x'') [1..<33]) = Inl OverVariables
   \<and> parseVar ''[y]'' (map (\<lambda>n. replicate n CHR ''x'') [1..<32]) \<noteq> Inl OverVariables
   \<and> parseVar (drop (skipWS '' [y]'') '' [y]'') (map (\<lambda>n. replicate n CHR ''x'') [1..<33])
        = Inl OverVariables
   \<and> parseExpr '' [y]'' (map (\<lambda>n. replicate n CHR ''x'') [1..<33]) = Inl OverVariables
   \<and> parseTopLevelExpr '' [y]'' (map (\<lambda>n. replicate n CHR ''x'') [1..<33]) = Inl OverVariables
   \<and> \<not> skipped '' [y]''
   \<and> readLines ['' [y]'', ''T''] 7 [TrueE] (map (\<lambda>n. replicate n CHR ''x'') [1..<33])
        = Inl OverVariables
   \<and> readLines (map (\<lambda>n. ''['' @ replicate n CHR ''x'' @ '']'') [1..<34]) 0 [] []
        = Inl OverVariables
   \<and> main TYPE(32) (map (\<lambda>n. ''['' @ replicate n CHR ''x'' @ '']'') [1..<34])
        = Some (Inl OverVariables)
   \<and> exit_code (Inl OverVariables) = Some 1
   \<and> readLines [''([A] and [B])''] 0 [] [] = Inr (Inr ([And (Var 0) (Var 1)], [''A'', ''B'']))
   \<and> length [''A'', ''B''] \<le> 32
   \<and> (list_all plain (map (\<lambda>n. replicate n CHR ''x'') [1..<33]) \<and> blank [CHR 0x0A])
   \<and> distinct (map (\<lambda>n. replicate n CHR ''x'') [1..<33])
   \<and> readLines (map (\<lambda>name. ''['' @ name @ '']'' @ [CHR 0x0A])
                  (map (\<lambda>n. replicate n CHR ''x'') [1..<33])) 0 [] []
        = Inr (Inr (map Var [0..<32], map (\<lambda>n. replicate n CHR ''x'') [1..<33]))
   \<and> (list_all plain (map (\<lambda>n. replicate n CHR ''x'') [1..<34]) \<and> blank [CHR 0x0A])
   \<and> distinct (map (\<lambda>n. replicate n CHR ''x'') [1..<34])
   \<and> readLines (map (\<lambda>name. ''['' @ name @ '']'' @ [CHR 0x0A])
                  (map (\<lambda>n. replicate n CHR ''x'') [1..<34])) 0 [] []
        = Inl OverVariables
   \<and> (list_all plain [''A'', ''B'', ''A''] \<and> blank [CHR 0x0A])
   \<and> readLines (map (\<lambda>name. ''['' @ name @ '']'' @ [CHR 0x0A]) [''A'', ''B'', ''A'']) 0 [] []
        = Inr (Inr ([Var 0, Var 1, Var 0], [''A'', ''B'']))"
proof -
  let ?v31 = "map (\<lambda>n. replicate n CHR ''x'') [1..<32]"
  let ?v32 = "map (\<lambda>n. replicate n CHR ''x'') [1..<33]"
  let ?v33 = "map (\<lambda>n. replicate n CHR ''x'') [1..<34]"
  let ?file33 = "map (\<lambda>n. ''['' @ replicate n CHR ''x'' @ '']'') [1..<34]"
  let ?nl = "[CHR 0x0A]"
  have h1: "''B'' \<in> set [''A'', ''B''] \<and> length [''A'', ''B''] \<le> 32"
    by simp
  have h2: "resolve [''A''] ''B'' = Inr (1, [''A'', ''B''])"
    by code_simp
  have h3: "replicate 32 CHR ''x'' \<notin> set ?v31 \<and> length ?v31 < 32"
    by code_simp
  have h4: "replicate 33 CHR ''x'' \<notin> set ?v32 \<and> length ?v32 = 32"
    by code_simp
  have h5: "blank '' '' \<and> blank ''  '' \<and> plain ''B c''"
    by code_simp
  have h6: "length ?v31 < 32"
    by code_simp
  have h7: "parseVar (drop (skipWS '' [y]'') '' [y]'') ?v32 = Inl OverVariables"
    by code_simp
  have h9: "\<not> skipped '' [y]''"
    by code_simp
  have h10: "readLines ?file33 0 [] [] = Inl OverVariables"
    by code_simp
  have h11: "readLines [''([A] and [B])''] 0 [] [] = Inr (Inr ([And (Var 0) (Var 1)], [''A'', ''B'']))"
    by code_simp
  have h12: "list_all plain ?v32 \<and> blank ?nl"
    by code_simp
  have h12': "list_all plain ?v33 \<and> blank ?nl"
    by code_simp
  have h12'': "list_all plain [''A'', ''B'', ''A''] \<and> blank ?nl"
    by code_simp
  have h13: "distinct ?v32"
    by code_simp
  have h13': "distinct ?v33"
    by code_simp
  have s: "search [''A'', ''B''] ''B'' = 1" "length ?v31 = 31"
    by code_simp+
  note t1 = variable_registry [where var = "''B''" and variables = "[''A'', ''B'']",
      THEN conjunct1, rule_format, OF h1, THEN conjunct1, unfolded s]
  note t2 = variable_registry [where var = "''B''" and variables = "[''A'']",
      THEN conjunct2, THEN conjunct1, rule_format, OF h2]
  note t3 = variable_registry [where var = "replicate 32 CHR ''x''" and variables = ?v31,
      THEN conjunct2, THEN conjunct2, THEN conjunct1, rule_format, OF h3, unfolded s]
  note t4 = variable_registry [where var = "replicate 33 CHR ''x''" and variables = ?v32,
      THEN conjunct2, THEN conjunct2, THEN conjunct2, THEN conjunct1, rule_format, OF h4]
  have a5: "''['' @ '' '' @ ''B c'' @ ''  '' @ '']'' @ '' and T'' = ''[ B c  ] and T''"
    by simp
  have e5: "(case resolve [''A''] ''B c'' of
           Inl e \<Rightarrow> Inl e
         | Inr (j, v) \<Rightarrow> Inr (length '' '' + length ''B c'' + length ''  '' + 2, Some (Var j), v))
       = Inr (8, Some (Var 1), [''A'', ''B c''])"
    by code_simp
  have e5': "(case resolve ?v32 ''B c'' of
           Inl e \<Rightarrow> Inl e
         | Inr (j, v) \<Rightarrow> Inr (length '' '' + length ''B c'' + length ''  '' + 2, Some (Var j), v))
       = (Inl OverVariables :: error + (nat \<times> Expr option \<times> string list))"
    by code_simp
  note t5 = variable_registry [where var = "''B c''" and variables = "[''A'']"
        and ws = "'' ''" and ws' = "''  ''" and rest = "'' and T''",
      THEN conjunct2, THEN conjunct2, THEN conjunct2, THEN conjunct2, THEN conjunct1,
      rule_format, OF h5, unfolded a5, THEN trans, OF e5]
  note t5' = variable_registry [where var = "''B c''" and variables = ?v32
        and ws = "'' ''" and ws' = "''  ''" and rest = "'' and T''",
      THEN conjunct2, THEN conjunct2, THEN conjunct2, THEN conjunct2, THEN conjunct1,
      rule_format, OF h5, unfolded a5, THEN trans, OF e5']
  note t6 = variable_registry [where variables = ?v31 and s = "''[y]''" and err = OverVariables,
      THEN conjunct2, THEN conjunct2, THEN conjunct2, THEN conjunct2, THEN conjunct2,
      THEN conjunct1, rule_format, OF h6]
  note t7 = variable_registry [where variables = ?v32 and s = "'' [y]''" and err = OverVariables,
      THEN conjunct2, THEN conjunct2, THEN conjunct2, THEN conjunct2, THEN conjunct2,
      THEN conjunct2, THEN conjunct1, rule_format, OF h7]
  note t8 = variable_registry [where variables = ?v32 and s = "'' [y]''" and err = OverVariables,
      THEN conjunct2, THEN conjunct2, THEN conjunct2, THEN conjunct2, THEN conjunct2,
      THEN conjunct2, THEN conjunct2, THEN conjunct1, rule_format, OF t7]
  note t9 = variable_registry [where variables = ?v32 and s = "'' [y]''" and err = OverVariables
        and lines = "[''T'']" and linenum = 7 and propositions = "[TrueE]",
      THEN conjunct2, THEN conjunct2, THEN conjunct2, THEN conjunct2, THEN conjunct2,
      THEN conjunct2, THEN conjunct2, THEN conjunct2, THEN conjunct1, rule_format,
      OF conjI, OF h9 t8]
  note t10 = variable_registry [where lines = ?file33 and err = OverVariables and w = "TYPE(32)",
      THEN conjunct2, THEN conjunct2, THEN conjunct2, THEN conjunct2, THEN conjunct2,
      THEN conjunct2, THEN conjunct2, THEN conjunct2, THEN conjunct2, THEN conjunct1,
      rule_format, OF h10]
  note t11 = variable_registry [where lines = "[''([A] and [B])'']"
        and props = "[And (Var 0) (Var 1)]" and registry = "[''A'', ''B'']",
      THEN conjunct2, THEN conjunct2, THEN conjunct2, THEN conjunct2, THEN conjunct2,
      THEN conjunct2, THEN conjunct2, THEN conjunct2, THEN conjunct2, THEN conjunct2,
      THEN conjunct1, rule_format, OF h11]
  note t13 = variable_registry [where names = ?v32,
      THEN conjunct2, THEN conjunct2, THEN conjunct2, THEN conjunct2, THEN conjunct2,
      THEN conjunct2, THEN conjunct2, THEN conjunct2, THEN conjunct2, THEN conjunct2,
      THEN conjunct2, THEN conjunct2, rule_format, OF h13]
  note t13' = variable_registry [where names = ?v33,
      THEN conjunct2, THEN conjunct2, THEN conjunct2, THEN conjunct2, THEN conjunct2,
      THEN conjunct2, THEN conjunct2, THEN conjunct2, THEN conjunct2, THEN conjunct2,
      THEN conjunct2, THEN conjunct2, rule_format, OF h13']
  have l: "length ?v32 = 32" "length ?v33 = 33"
    by simp_all
  have m: "map (\<lambda>name. Var (search ?v32 name)) ?v32 = map Var (map (search ?v32) ?v32)"
    by (simp only: map_map o_def)
  note t12 = variable_registry [where names = ?v32 and nl = ?nl,
      THEN conjunct2, THEN conjunct2, THEN conjunct2, THEN conjunct2, THEN conjunct2,
      THEN conjunct2, THEN conjunct2, THEN conjunct2, THEN conjunct2, THEN conjunct2,
      THEN conjunct2, THEN conjunct1, rule_format, OF h12, unfolded t13 [THEN conjunct1]]
  have r12: "readLines (map (\<lambda>name. ''['' @ name @ '']'' @ ?nl) ?v32) 0 [] []
        = Inr (Inr (map Var [0..<32], ?v32))"
    using t12 t13 [THEN conjunct2] by (simp only: m l if_True order_refl)
  note t12' = variable_registry [where names = ?v33 and nl = ?nl,
      THEN conjunct2, THEN conjunct2, THEN conjunct2, THEN conjunct2, THEN conjunct2,
      THEN conjunct2, THEN conjunct2, THEN conjunct2, THEN conjunct2, THEN conjunct2,
      THEN conjunct2, THEN conjunct1, rule_format, OF h12', unfolded t13' [THEN conjunct1]]
  have r12': "readLines (map (\<lambda>name. ''['' @ name @ '']'' @ ?nl) ?v33) 0 [] []
        = Inl OverVariables"
    using t12' by (simp add: l del: map_map upt_Suc)
  have e12: "(if length (register [] [''A'', ''B'', ''A'']) \<le> 32
         then Inr (Inr (map (\<lambda>name. Var (search (register [] [''A'', ''B'', ''A'']) name))
                          [''A'', ''B'', ''A''],
                        register [] [''A'', ''B'', ''A'']))
         else Inl OverVariables)
       = (Inr (Inr ([Var 0, Var 1, Var 0], [''A'', ''B'']))
            :: error + ((report \<times> int) + (Expr list \<times> string list)))"
    by code_simp
  note t12'' = variable_registry [where names = "[''A'', ''B'', ''A'']" and nl = ?nl,
      THEN conjunct2, THEN conjunct2, THEN conjunct2, THEN conjunct2, THEN conjunct2,
      THEN conjunct2, THEN conjunct2, THEN conjunct2, THEN conjunct2, THEN conjunct2,
      THEN conjunct2, THEN conjunct1, rule_format, OF h12'', THEN trans, OF e12]
  show ?thesis
    using h1 h2 h3 h4 h5 h7 h9 h10 h11 h12 h12' h12'' h13 h13'
      t1 t2 t3 t4 t5 t5' t6 t7 t8 t9 t10 t11 r12 r12' t12''
    by (simp only: simp_thms)
qed

end
